theory Spec2Isabelle
  imports
    Main
    "HOL-Library.Char_ord"
    "HOL-Library.List_Lexorder"
    "HOL-Library.Multiset"
    "HOL-Library.AList"
    "HOL-Library.Sublist"
begin

section \<open>Strings and paths\<close>

text \<open>
  Python strings are modelled as \<^typ>\<open>string\<close>. A path is the list of its components
  below the file-system root \<open>/\<close>: \<open>/r/sub/b.txt\<close> is \<open>[''r'', ''sub'', ''b.txt'']\<close>.
  Paths are compared the way \<open>pathlib\<close> compares \<open>PurePosixPath\<close> objects: as lists of
  components, each component by the code of its characters. This is the order that
  \<open>HOL-Library.List_Lexorder\<close> and \<open>HOL-Library.Char_ord\<close> put on \<^typ>\<open>string list\<close>.
\<close>

type_synonym path = "string list"

text \<open>
  \<open>str.lower()\<close>, on the ASCII letters. Every other character is left as it is.
\<close>

definition lower_char :: "char \<Rightarrow> char" where
  "lower_char c =
     (case map_of (zip ''ABCDEFGHIJKLMNOPQRSTUVWXYZ'' ''abcdefghijklmnopqrstuvwxyz'') c of
        Some d \<Rightarrow> d
      | None \<Rightarrow> c)"

definition lower :: "string \<Rightarrow> string" where
  "lower s = map lower_char s"

text \<open>\<open>sep.join(parts)\<close>.\<close>

fun join :: "string \<Rightarrow> string list \<Rightarrow> string" where
  "join sep [] = []"
| "join sep [x] = x"
| "join sep (x # y # ys) = x @ sep @ join sep (y # ys)"

text \<open>
  \<open>PurePath.as_posix()\<close> of a relative path: the components joined by \<open>/\<close>, and \<open>.\<close> for
  the empty relative path.
\<close>

definition as_posix :: "path \<Rightarrow> string" where
  "as_posix rel = (if rel = [] then ''.'' else join ''/'' rel)"

text \<open>
  \<open>path.relative_to(root)\<close>. The source calls it only on the paths that \<open>root.rglob\<close>
  yields, which all extend \<open>root\<close> (lemma \<open>rglob_under_root\<close> below), so its
  \<open>ValueError\<close> is never raised there.
\<close>

definition relative_to :: "path \<Rightarrow> path \<Rightarrow> path" where
  "relative_to p root = drop (length root) p"

text \<open>\<open>PurePath.name\<close>: the last component, empty for the root.\<close>

definition name :: "path \<Rightarrow> string" where
  "name p = (if p = [] then [] else last p)"

text \<open>\<open>s.rfind(c)\<close>: the highest index of \<open>c\<close> in \<open>s\<close>, or \<open>-1\<close>.\<close>

definition rfind :: "string \<Rightarrow> char \<Rightarrow> int" where
  "rfind s c =
     (if c \<in> set s then int (length s) - 1 - int (length (takeWhile (\<lambda>x. x \<noteq> c) (rev s)))
      else - 1)"

text \<open>
  \<open>PurePath.suffix\<close>:
  \<^verbatim>\<open>
    name = self.name
    i = name.rfind('.')
    if 0 < i < len(name) - 1:
        return name[i:]
    else:
        return ''
  \<close>
\<close>

definition path_suffix :: "path \<Rightarrow> string" where
  "path_suffix p =
     (let nm = name p; i = rfind nm CHR ''.''
      in if 0 < i \<and> i < int (length nm) - 1 then drop (nat i) nm else [])"

text \<open>\<open>Path.resolve()\<close>. The paths of the model are absolute and without \<open>.\<close> or \<open>..\<close>,
  and its file system has no symbolic links: resolving changes nothing.\<close>

definition resolve :: "path \<Rightarrow> path" where
  "resolve p = p"

text \<open>\<open>Path.parent\<close>; the parent of the root is the root.\<close>

definition parent :: "path \<Rightarrow> path" where
  "parent p = butlast p"

section \<open>The file system\<close>

text \<open>
  A tree of directories and regular files. A file holds what \<open>read_text(encoding="utf-8",
  errors="replace")\<close> gives for it: the decoded text, or the message of the exception
  raised when it cannot be read. A directory lists its entries in the order in which
  the operating system enumerates them.
\<close>

datatype contents = Text string | Unreadable string

datatype node = File contents | Dir "(string \<times> node) list"

datatype error = FileExistsError | NotADirectoryError | IsADirectoryError | FileNotFoundError

fun lookup :: "node \<Rightarrow> path \<Rightarrow> node option" where
  "lookup n [] = Some n"
| "lookup (File c) (x # xs) = None"
| "lookup (Dir es) (x # xs) = (case map_of es x of None \<Rightarrow> None | Some n \<Rightarrow> lookup n xs)"

definition is_file :: "node \<Rightarrow> path \<Rightarrow> bool" where
  "is_file fs p = (case lookup fs p of Some (File c) \<Rightarrow> True | _ \<Rightarrow> False)"

text \<open>
  \<open>read_text\<close>: \<open>Inr\<close> the text, \<open>Inl\<close> the message of the exception.
\<close>

definition read_text :: "node \<Rightarrow> path \<Rightarrow> string + string" where
  "read_text fs p =
     (case lookup fs p of
        Some (File (Text s)) \<Rightarrow> Inr s
      | Some (File (Unreadable exc)) \<Rightarrow> Inl exc
      | Some (Dir es) \<Rightarrow> Inl ''[Errno 21] Is a directory''
      | None \<Rightarrow> Inl ''[Errno 2] No such file or directory'')"

text \<open>
  Every entry below a node, each directory before its own entries: what
  \<open>root.rglob("*")\<close> enumerates.
\<close>

fun walk :: "path \<Rightarrow> node \<Rightarrow> path list" where
  "walk p (File c) = []"
| "walk p (Dir es) = concat (map (\<lambda>(x, n). (p @ [x]) # walk (p @ [x]) n) es)"

definition rglob :: "node \<Rightarrow> path \<Rightarrow> path list" where
  "rglob fs root = (case lookup fs root of None \<Rightarrow> [] | Some n \<Rightarrow> walk root n)"

text \<open>
  \<open>path.mkdir(parents=True, exist_ok=True)\<close>: creates the missing directories of the
  path; fails when the path or one of its ancestors is a regular file.
\<close>

fun mkdir :: "node \<Rightarrow> path \<Rightarrow> error + node" where
  "mkdir (File c) [] = Inl FileExistsError"
| "mkdir (File c) (x # xs) = Inl NotADirectoryError"
| "mkdir (Dir es) [] = Inr (Dir es)"
| "mkdir (Dir es) (x # xs) =
     (case mkdir (case map_of es x of None \<Rightarrow> Dir [] | Some n \<Rightarrow> n) xs of
        Inl e \<Rightarrow> Inl e
      | Inr n' \<Rightarrow> Inr (Dir (AList.update x n' es)))"

text \<open>
  \<open>path.open("w")\<close>: creates the file, or truncates it when it exists; fails when the
  path is a directory, when its parent directory does not exist, or when an ancestor
  is a regular file.
\<close>

fun open_w :: "node \<Rightarrow> path \<Rightarrow> error + node" where
  "open_w (File c) [] = Inr (File (Text []))"
| "open_w (Dir es) [] = Inl IsADirectoryError"
| "open_w (File c) (x # xs) = Inl NotADirectoryError"
| "open_w (Dir es) (x # xs) =
     (case map_of es x of
        None \<Rightarrow>
          (if xs = [] then Inr (Dir (AList.update x (File (Text [])) es))
           else Inl FileNotFoundError)
      | Some n \<Rightarrow>
          (case open_w n xs of
             Inl e \<Rightarrow> Inl e
           | Inr n' \<Rightarrow> Inr (Dir (AList.update x n' es))))"

text \<open>
  Closing the file opened at a path: the text written through the handle becomes the
  content of the file.
\<close>

fun close :: "node \<Rightarrow> path \<Rightarrow> string \<Rightarrow> node" where
  "close (File c) [] s = File (Text s)"
| "close (Dir es) [] s = Dir es"
| "close (File c) (x # xs) s = File c"
| "close (Dir es) (x # xs) s =
     (case map_of es x of
        None \<Rightarrow> Dir es
      | Some n \<Rightarrow> Dir (AList.update x (close n xs s) es))"

section \<open>The aggregator\<close>

text \<open>\<open>separator = "-" * 80\<close>\<close>

definition separator :: string where
  "separator = replicate 80 CHR ''-''"

text \<open>
  The loop of lines 28 to 39 over the entries that \<open>rglob\<close> yields; \<open>files\<close> is the list
  built so far, and each \<open>continue\<close> of the source is a recursive call that leaves it as
  it is. \<open>gitignore_spec\<close> is \<open>None\<close> or the \<open>match_file\<close> predicate of the compiled
  pattern set, applied to the relative path as a string.
\<close>

fun collect ::
  "node \<Rightarrow> path \<Rightarrow> string \<Rightarrow> path \<Rightarrow> (string \<Rightarrow> bool) option \<Rightarrow> path list \<Rightarrow> path list \<Rightarrow> path list"
where
  "collect fs root ext output gitignore_spec [] files = files"
| "collect fs root ext output gitignore_spec (p # ps) files =
     (if (case gitignore_spec of
            None \<Rightarrow> False
          | Some match_file \<Rightarrow> match_file (as_posix (relative_to p root)))
      then collect fs root ext output gitignore_spec ps files
      else if is_file fs p \<and> lower (path_suffix p) = ext
      then (if resolve p = output
            then collect fs root ext output gitignore_spec ps files
            else collect fs root ext output gitignore_spec ps (files @ [p]))
      else collect fs root ext output gitignore_spec ps files)"

text \<open>
  The list \<open>files\<close> after \<open>files.sort()\<close> (line 41), from the arguments of
  \<open>aggregate_files\<close> as the caller gives them.
\<close>

definition files :: "path \<Rightarrow> string \<Rightarrow> path \<Rightarrow> (string \<Rightarrow> bool) option \<Rightarrow> node \<Rightarrow> path list" where
  "files root ext output gitignore_spec fs =
     sort (collect fs (resolve root) (lower ext) (resolve output) gitignore_spec
             (rglob fs (resolve root)) [])"

text \<open>
  The loop of lines 53 to 65; \<open>out_f\<close> is the text written to the handle so far.
\<close>

fun write_blocks :: "node \<Rightarrow> path \<Rightarrow> path list \<Rightarrow> string \<Rightarrow> string" where
  "write_blocks fs root [] out_f = out_f"
| "write_blocks fs root (file_path # fps) out_f =
     (let rel_path = as_posix (relative_to file_path root);
          out_f1 = out_f @ (rel_path @ ''\<newline>'');
          content =
            (case read_text fs file_path of
               Inr s \<Rightarrow> s
             | Inl exc \<Rightarrow> ''[Error reading file: '' @ exc @ '']'');
          out_f2 = out_f1 @ content;
          out_f3 = (if \<not> suffix ''\<newline>'' content then out_f2 @ ''\<newline>'' else out_f2);
          out_f4 = out_f3 @ (separator @ ''\<newline>\<newline>'')
      in write_blocks fs root fps out_f4)"

text \<open>
  \<open>aggregate_files\<close>, on a file system that it returns as the run leaves it. The result
  is the count, or the exception that \<open>mkdir\<close> or \<open>open\<close> raised. The two messages
  printed to the console are not modelled.
\<close>

definition aggregate_files ::
  "path \<Rightarrow> string \<Rightarrow> path \<Rightarrow> (string \<Rightarrow> bool) option \<Rightarrow> node \<Rightarrow> (error + nat) \<times> node"
where
  "aggregate_files root ext output gitignore_spec fs =
     (let fls = files root ext output gitignore_spec fs
      in if fls = [] then (Inr 0, fs)
         else
           (case mkdir fs (parent (resolve output)) of
              Inl e \<Rightarrow> (Inl e, fs)
            | Inr fs1 \<Rightarrow>
                (case open_w fs1 (resolve output) of
                   Inl e \<Rightarrow> (Inl e, fs1)
                 | Inr fs2 \<Rightarrow>
                     (Inr (length fls),
                      close fs2 (resolve output) (write_blocks fs2 (resolve root) fls [])))))"

text \<open>
  \<open>main\<close>, after the command line is parsed: \<open>root\<close> and an output path given with \<open>-o\<close>
  are absolute, \<open>output = None\<close> when \<open>-o\<close> is absent, and \<open>gitignore_spec\<close> is the pattern
  set that \<open>main\<close> compiled, or \<open>None\<close>.
\<close>

definition main ::
  "path \<Rightarrow> string \<Rightarrow> path option \<Rightarrow> (string \<Rightarrow> bool) option \<Rightarrow> node \<Rightarrow> (error + nat) \<times> node"
where
  "main root ext output gitignore_spec fs =
     (let ext1 = (if \<not> prefix ''.'' ext then ''.'' @ ext else ext);
          out_path = (case output of Some p \<Rightarrow> p | None \<Rightarrow> root @ [''aggregated'' @ ext1])
      in aggregate_files root ext1 out_path gitignore_spec fs)"

section \<open>Notions used to state the properties\<close>

text \<open>A well-formed tree: no directory lists a name twice.\<close>

fun wf_fs :: "node \<Rightarrow> bool" where
  "wf_fs (File c) = True"
| "wf_fs (Dir es) = (distinct (map fst es) \<and> (\<forall>e \<in> set es. wf_fs (snd e)))"

text \<open>
  The output format in the words of the specification (section 4.2, step 7): the text
  that stands for the content of a file, which is its decoded text or the bracketed
  marker naming the failure, and the block of a file: the relative path and a newline,
  the content, a newline if the content does not end with one, a line of 80 dashes and
  one blank line.
\<close>

definition spec_content :: "node \<Rightarrow> path \<Rightarrow> string" where
  "spec_content fs p =
     (case read_text fs p of
        Inr s \<Rightarrow> s
      | Inl exc \<Rightarrow> ''[Error reading file: '' @ exc @ '']'')"

definition spec_block :: "node \<Rightarrow> path \<Rightarrow> path \<Rightarrow> string" where
  "spec_block fs root p =
     as_posix (relative_to p root) @ ''\<newline>''
     @ spec_content fs p
     @ (if suffix ''\<newline>'' (spec_content fs p) then [] else ''\<newline>'')
     @ replicate 80 CHR ''-'' @ ''\<newline>''
     @ ''\<newline>''"

text \<open>
  The reader's side of the round trip. \<open>text.split(sep)\<close> for a non-empty \<open>sep\<close>, scanning
  from the left; \<open>acc\<close> is the piece being read.
\<close>

fun split_acc :: "string \<Rightarrow> string \<Rightarrow> string \<Rightarrow> string list" where
  "split_acc sep acc [] = [acc]"
| "split_acc sep acc (c # cs) =
     (if sep \<noteq> [] \<and> prefix sep (c # cs)
      then acc # split_acc sep [] (drop (length sep) (c # cs))
      else split_acc sep (acc @ [c]) cs)"

definition str_split :: "string \<Rightarrow> string \<Rightarrow> string list" where
  "str_split s sep = split_acc sep [] s"

text \<open>
  A piece is read as a block by dropping the newlines that the preceding separator
  line and its blank line leave at its start; the first line is the path and what
  follows the newline of the first line is the content.
\<close>

definition read_block :: "string \<Rightarrow> string \<times> string" where
  "read_block piece =
     (let b = dropWhile (\<lambda>c. c = CHR ''\<newline>'') piece
      in (takeWhile (\<lambda>c. c \<noteq> CHR ''\<newline>'') b,
          drop 1 (dropWhile (\<lambda>c. c \<noteq> CHR ''\<newline>'') b)))"

text \<open>
  The blocks read from an artifact: the pieces between the separators, without the
  piece after the last separator, which holds the final blank line only.
\<close>

definition read_blocks :: "string \<Rightarrow> (string \<times> string) list" where
  "read_blocks text = map read_block (butlast (str_split text separator))"

text \<open>The content with a final newline added when it has none.\<close>

definition newline_normalized :: "string \<Rightarrow> string" where
  "newline_normalized c = (if suffix ''\<newline>'' c then c else c @ ''\<newline>'')"

section \<open>Suffixes and the extension filter\<close>

lemma drop_rfind:
  assumes "c \<in> set s"
  shows "drop (length s - 1 - length (takeWhile (\<lambda>x. x \<noteq> c) (rev s))) s
         = c # rev (takeWhile (\<lambda>x. x \<noteq> c) (rev s))"
proof -
  let ?tw = "takeWhile (\<lambda>x. x \<noteq> c) (rev s)"
  let ?dw = "dropWhile (\<lambda>x. x \<noteq> c) (rev s)"
  from assms have "?dw \<noteq> []" by (simp add: dropWhile_eq_Nil_conv)
  moreover have "hd ?dw = c" using hd_dropWhile[of "\<lambda>x. x \<noteq> c" "rev s"] calculation by auto
  ultimately obtain r where dw: "?dw = c # r" by (cases ?dw) auto
  have "rev s = ?tw @ c # r" using takeWhile_dropWhile_id[of "\<lambda>x. x \<noteq> c" "rev s"] dw by simp
  then have s: "s = rev r @ c # rev ?tw"
    by (metis rev_append rev.simps(2) rev_rev_ident append_assoc append_Cons append_Nil)
  have len: "length s - 1 - length ?tw = length (rev r)"
    using arg_cong[OF s, of length] by simp
  show ?thesis unfolding len by (subst s) simp
qed

text \<open>A suffix is empty, or a dot followed by characters that are not dots.\<close>

lemma path_suffix_shape:
  "path_suffix p = [] \<or> (\<exists>t. path_suffix p = CHR ''.'' # t \<and> CHR ''.'' \<notin> set t)"
proof (cases "path_suffix p = []")
  case True
  then show ?thesis by simp
next
  case False
  let ?nm = "name p"
  from False have i: "0 < rfind ?nm CHR ''.''"
    and ps: "path_suffix p = drop (nat (rfind ?nm CHR ''.'')) ?nm"
    by (auto simp: path_suffix_def Let_def split: if_splits)
  from i have mem: "CHR ''.'' \<in> set ?nm" by (auto simp: rfind_def split: if_splits)
  have "nat (rfind ?nm CHR ''.'')
        = length ?nm - 1 - length (takeWhile (\<lambda>x. x \<noteq> CHR ''.'') (rev ?nm))"
    using mem i by (simp add: rfind_def)
  then have "path_suffix p = CHR ''.'' # rev (takeWhile (\<lambda>x. x \<noteq> CHR ''.'') (rev ?nm))"
    using ps drop_rfind[OF mem] by simp
  moreover have "CHR ''.'' \<notin> set (rev (takeWhile (\<lambda>x. x \<noteq> CHR ''.'') (rev ?nm)))"
    using set_takeWhileD by fastforce
  ultimately show ?thesis by blast
qed

lemma lower_char_dot: "lower_char c = CHR ''.'' \<longleftrightarrow> c = CHR ''.''"
  by (auto simp: lower_char_def split: option.splits if_splits)

lemma lower_suffix_no_second_dot:
  "lower (path_suffix p) \<noteq> lower (c # a @ ''.'' @ b)"
proof
  assume eq: "lower (path_suffix p) = lower (c # a @ ''.'' @ b)"
  from path_suffix_shape[of p] show False
  proof
    assume "path_suffix p = []"
    with eq show False by (simp add: lower_def)
  next
    assume "\<exists>t. path_suffix p = CHR ''.'' # t \<and> CHR ''.'' \<notin> set t"
    then obtain t where t: "path_suffix p = CHR ''.'' # t" and nd: "CHR ''.'' \<notin> set t" by blast
    from eq t have "map lower_char t = map lower_char a @ lower_char CHR ''.'' # map lower_char b"
      by (simp add: lower_def)
    then have "lower_char CHR ''.'' \<in> set (map lower_char t)" by simp
    then obtain x where "x \<in> set t" and "lower_char x = lower_char CHR ''.''" by auto
    then have "x = CHR ''.''" using lower_char_dot[of x] lower_char_dot[of "CHR ''.''"] by simp
    with \<open>x \<in> set t\<close> nd show False by simp
  qed
qed

section \<open>The candidate list\<close>

text \<open>The loop of lines 28 to 39 is a filter of the entries, in the order of the walk.\<close>

lemma collect_eq:
  "collect fs root ext output spec ps acc =
     acc @ filter (\<lambda>p. \<not> (case spec of None \<Rightarrow> False | Some m \<Rightarrow> m (as_posix (relative_to p root)))
                       \<and> is_file fs p \<and> lower (path_suffix p) = ext \<and> resolve p \<noteq> output) ps"
  by (induction ps arbitrary: acc) auto

lemma set_files:
  "set (files root ext output spec fs) =
     {p \<in> set (rglob fs (resolve root)).
        \<not> (case spec of None \<Rightarrow> False | Some m \<Rightarrow> m (as_posix (relative_to p (resolve root))))
        \<and> is_file fs p \<and> lower (path_suffix p) = lower ext \<and> resolve p \<noteq> resolve output}"
  by (auto simp: files_def collect_eq)

text \<open>The suffix of a name with a dot inside: the part from the last dot on.\<close>

lemma rfind_last_dot:
  assumes "CHR ''.'' \<notin> set t"
  shows "rfind (b @ CHR ''.'' # t) CHR ''.'' = int (length b)"
proof -
  have "rev (b @ CHR ''.'' # t) = rev t @ CHR ''.'' # rev b" by simp
  moreover have "takeWhile (\<lambda>x. x \<noteq> CHR ''.'') (rev t @ CHR ''.'' # rev b) = rev t"
    using assms by (simp add: takeWhile_append)
  ultimately have "takeWhile (\<lambda>x. x \<noteq> CHR ''.'') (rev (b @ CHR ''.'' # t)) = rev t"
    by simp
  then show ?thesis by (simp add: rfind_def)
qed

lemma path_suffix_final_part:
  assumes "b \<noteq> []" and "t \<noteq> []" and "CHR ''.'' \<notin> set t"
  shows "path_suffix (d @ [b @ CHR ''.'' # t]) = CHR ''.'' # t"
proof -
  have nm: "name (d @ [b @ CHR ''.'' # t]) = b @ CHR ''.'' # t" by (simp add: name_def)
  have i: "rfind (b @ CHR ''.'' # t) CHR ''.'' = int (length b)"
    using assms(3) by (rule rfind_last_dot)
  from assms(1,2) have "0 < int (length b)"
    and "int (length b) < int (length (b @ CHR ''.'' # t)) - 1" by auto
  then show ?thesis unfolding path_suffix_def nm i Let_def by simp
qed

lemma path_suffix_dotfile:
  assumes "CHR ''.'' \<notin> set t"
  shows "path_suffix (d @ [CHR ''.'' # t]) = []"
proof -
  have nm: "name (d @ [CHR ''.'' # t]) = CHR ''.'' # t" by (simp add: name_def)
  have "rfind ([] @ CHR ''.'' # t) CHR ''.'' = int (length ([] :: string))"
    using assms by (rule rfind_last_dot)
  then have i: "rfind (CHR ''.'' # t) CHR ''.'' = 0" by simp
  show ?thesis unfolding path_suffix_def nm i Let_def by simp
qed

lemma path_suffix_trailing_dot: "path_suffix (d @ [b @ ''.'']) = []"
proof -
  have nm: "name (d @ [b @ ''.'']) = b @ ''.''" by (simp add: name_def)
  have "rfind (b @ CHR ''.'' # []) CHR ''.'' = int (length b)"
    by (rule rfind_last_dot) simp
  then have i: "rfind (b @ ''.'') CHR ''.'' = int (length b)" by simp
  show ?thesis unfolding path_suffix_def nm i Let_def by simp
qed

lemma path_suffix_no_dot: "CHR ''.'' \<notin> set nm \<Longrightarrow> path_suffix (d @ [nm]) = []"
  by (simp add: path_suffix_def name_def rfind_def)

text \<open>The suffix is shorter than the name it is taken from.\<close>

lemma path_suffix_shorter:
  assumes "name p \<noteq> []"
  shows "length (path_suffix p) < length (name p)"
proof (cases "path_suffix p = []")
  case True
  with assms show ?thesis by simp
next
  case False
  then have "0 < rfind (name p) CHR ''.''"
    and "path_suffix p = drop (nat (rfind (name p) CHR ''.'')) (name p)"
    by (auto simp: path_suffix_def Let_def split: if_splits)
  with assms show ?thesis by simp
qed

lemma named_like_filter_not_selected:
  "d @ [c # nm] \<notin> set (files root (c # nm) output spec fs)"
proof
  assume "d @ [c # nm] \<in> set (files root (c # nm) output spec fs)"
  then have "lower (path_suffix (d @ [c # nm])) = lower (c # nm)"
    by (simp add: set_files)
  then have "length (path_suffix (d @ [c # nm])) = length (c # nm)"
    by (metis length_map lower_def)
  moreover have "length (path_suffix (d @ [c # nm])) < length (name (d @ [c # nm]))"
    by (rule path_suffix_shorter) (simp add: name_def)
  ultimately show False by (simp add: name_def)
qed

lemma mem_files:
  "(p \<in> set (files root ext output spec fs)) =
     (p \<in> set (rglob fs root) \<and> is_file fs p
      \<and> lower (path_suffix p) = lower ext
      \<and> \<not> (case spec of None \<Rightarrow> False | Some m \<Rightarrow> m (as_posix (relative_to p root)))
      \<and> p \<noteq> output)"
  unfolding set_files resolve_def by blast


text \<open>
  C9. Extension matching compares the final dot-suffix of the file name only. The
  suffix of a name with a dot that is neither its first nor its last character is the
  part from the last dot on; a name that starts with its only dot, a name that ends
  with a dot and a name without a dot have the empty suffix. A file is a candidate
  exactly when, among the other conditions, its lowercased suffix is the lowercased
  filter. So a file named exactly like the filter is never a candidate, as the file
  \<open>.txt\<close> under the filter \<open>.txt\<close>; and the filter \<open>.tar.gz\<close>, like any filter with a dot
  after its first character, selects no file.
\<close>

theorem suffix_is_final_dot_part:
  "(b \<noteq> [] \<longrightarrow> t \<noteq> [] \<longrightarrow> CHR ''.'' \<notin> set t \<longrightarrow>
      path_suffix (d @ [b @ CHR ''.'' # t]) = CHR ''.'' # t)
   \<and> (CHR ''.'' \<notin> set t \<longrightarrow> path_suffix (d @ [CHR ''.'' # t]) = [])
   \<and> path_suffix (d @ [b @ ''.'']) = []
   \<and> (CHR ''.'' \<notin> set nm \<longrightarrow> path_suffix (d @ [nm]) = [])
   \<and> (p \<in> set (files root ext output spec fs)) =
       (p \<in> set (rglob fs root) \<and> is_file fs p
        \<and> lower (path_suffix p) = lower ext
        \<and> \<not> (case spec of None \<Rightarrow> False | Some m \<Rightarrow> m (as_posix (relative_to p root)))
        \<and> p \<noteq> output)
   \<and> d @ [c # e] \<notin> set (files root (c # e) output spec fs)
   \<and> path_suffix (d @ [''.txt'']) = []
   \<and> d @ [''.txt''] \<notin> set (files root ''.txt'' output spec fs)
   \<and> files root ''.tar.gz'' output spec fs = []
   \<and> files root (c # a @ ''.'' @ b') output spec fs = []"
proof (intro conjI impI)
  assume "b \<noteq> []" and "t \<noteq> []" and "CHR ''.'' \<notin> set t"
  then show "path_suffix (d @ [b @ CHR ''.'' # t]) = CHR ''.'' # t"
    by (rule path_suffix_final_part)
next
  assume "CHR ''.'' \<notin> set t"
  then show "path_suffix (d @ [CHR ''.'' # t]) = []" by (rule path_suffix_dotfile)
next
  show "path_suffix (d @ [b @ ''.'']) = []" by (rule path_suffix_trailing_dot)
next
  assume "CHR ''.'' \<notin> set nm"
  then show "path_suffix (d @ [nm]) = []" by (rule path_suffix_no_dot)
next
  show "(p \<in> set (files root ext output spec fs)) =
       (p \<in> set (rglob fs root) \<and> is_file fs p
        \<and> lower (path_suffix p) = lower ext
        \<and> \<not> (case spec of None \<Rightarrow> False | Some m \<Rightarrow> m (as_posix (relative_to p root)))
        \<and> p \<noteq> output)"
    by (rule mem_files)
next
  show "d @ [c # e] \<notin> set (files root (c # e) output spec fs)"
    by (rule named_like_filter_not_selected)
next
  show 1: "path_suffix (d @ [''.txt'']) = []"
    by (simp add: path_suffix_def name_def rfind_def)
  show "d @ [''.txt''] \<notin> set (files root ''.txt'' output spec fs)"
    using 1 by (simp add: set_files lower_def)
next
  have 4: "files root (c # a @ ''.'' @ b) output spec fs = []" for c a b
  proof -
    have "set (files root (c # a @ ''.'' @ b) output spec fs) = {}"
      unfolding set_files using lower_suffix_no_second_dot by blast
    then show ?thesis by simp
  qed
  show "files root ''.tar.gz'' output spec fs = []"
    using 4[of "CHR ''.''" "''tar''" "''gz''"] by simp
  show "files root (c # a @ ''.'' @ b') output spec fs = []" by (rule 4)
qed

theorem suffix_is_final_dot_part_witness:
  "''a.tar'' \<noteq> [] \<and> ''GZ'' \<noteq> [] \<and> CHR ''.'' \<notin> set ''GZ'' \<and> CHR ''.'' \<notin> set ''Makefile''
   \<and> path_suffix [''r'', ''a.tar.GZ''] = ''.GZ''
   \<and> path_suffix [''r'', ''.GZ''] = []
   \<and> path_suffix [''r'', ''Makefile''] = []
   \<and> [''r'', ''a.tar.GZ''] \<in> set (files [''r''] ''.gz'' [''r'', ''out.gz''] None
        (Dir [(''r'', Dir [(''a.tar.GZ'', File (Text ''z'')), (''.GZ'', File (Text ''h'')),
                           (''Makefile'', File (Text ''m''))])]))
   \<and> [''r'', ''a.tar.GZ''] \<notin> set (files [''r''] ''.tar'' [''r'', ''out.gz''] None
        (Dir [(''r'', Dir [(''a.tar.GZ'', File (Text ''z'')), (''.GZ'', File (Text ''h'')),
                           (''Makefile'', File (Text ''m''))])]))
   \<and> [''r'', ''.GZ''] \<notin> set (files [''r''] ''.GZ'' [''r'', ''out.gz''] None
        (Dir [(''r'', Dir [(''a.tar.GZ'', File (Text ''z'')), (''.GZ'', File (Text ''h'')),
                           (''Makefile'', File (Text ''m''))])]))
   \<and> [''r'', ''.GZ''] \<in> set (rglob
        (Dir [(''r'', Dir [(''a.tar.GZ'', File (Text ''z'')), (''.GZ'', File (Text ''h'')),
                           (''Makefile'', File (Text ''m''))])]) [''r''])
   \<and> is_file (Dir [(''r'', Dir [(''a.tar.GZ'', File (Text ''z'')), (''.GZ'', File (Text ''h'')),
                           (''Makefile'', File (Text ''m''))])]) [''r'', ''.GZ'']"
proof -
  let ?fs = "Dir [(''r'', Dir [(''a.tar.GZ'', File (Text ''z'')), (''.GZ'', File (Text ''h'')),
                           (''Makefile'', File (Text ''m''))])]"
  note T1 = suffix_is_final_dot_part[of "''a.tar''" "''GZ''" "[''r'']" "''Makefile''"
      "[''r'', ''a.tar.GZ'']" "[''r'']" "''.gz''" "[''r'', ''out.gz'']" None ?fs "CHR ''.''" "''GZ''"]
  note T2 = suffix_is_final_dot_part[of "''a.tar''" "''GZ''" "[''r'']" "''Makefile''"
      "[''r'', ''a.tar.GZ'']" "[''r'']" "''.tar''" "[''r'', ''out.gz'']" None ?fs "CHR ''.''" "''GZ''"]
  have h1: "''a.tar'' \<noteq> []" and h2: "''GZ'' \<noteq> []" and h3: "CHR ''.'' \<notin> set ''GZ''"
    and h4: "CHR ''.'' \<notin> set ''Makefile''" by simp_all
  from T1 h1 h2 h3 have "path_suffix ([''r''] @ [''a.tar'' @ CHR ''.'' # ''GZ'']) = CHR ''.'' # ''GZ''"
    by blast
  then have w1: "path_suffix [''r'', ''a.tar.GZ''] = ''.GZ''" by simp
  from T1 h3 have "path_suffix ([''r''] @ [CHR ''.'' # ''GZ'']) = []" by blast
  then have w2: "path_suffix [''r'', ''.GZ''] = []" by simp
  from T1 h4 have "path_suffix ([''r''] @ [''Makefile'']) = []" by blast
  then have w3: "path_suffix [''r'', ''Makefile''] = []" by simp
  have r1: "[''r'', ''a.tar.GZ''] \<in> set (rglob ?fs [''r'']) \<and> is_file ?fs [''r'', ''a.tar.GZ'']
        \<and> lower (path_suffix [''r'', ''a.tar.GZ'']) = lower ''.gz''
        \<and> \<not> (case None :: (string \<Rightarrow> bool) option of None \<Rightarrow> False
               | Some m \<Rightarrow> m (as_posix (relative_to [''r'', ''a.tar.GZ''] [''r''])))
        \<and> [''r'', ''a.tar.GZ''] \<noteq> [''r'', ''out.gz'']"
    by code_simp
  from T1 have "([''r'', ''a.tar.GZ''] \<in> set (files [''r''] ''.gz'' [''r'', ''out.gz''] None ?fs)) =
       ([''r'', ''a.tar.GZ''] \<in> set (rglob ?fs [''r'']) \<and> is_file ?fs [''r'', ''a.tar.GZ'']
        \<and> lower (path_suffix [''r'', ''a.tar.GZ'']) = lower ''.gz''
        \<and> \<not> (case None :: (string \<Rightarrow> bool) option of None \<Rightarrow> False
               | Some m \<Rightarrow> m (as_posix (relative_to [''r'', ''a.tar.GZ''] [''r''])))
        \<and> [''r'', ''a.tar.GZ''] \<noteq> [''r'', ''out.gz''])"
    by blast
  with r1 have w4: "[''r'', ''a.tar.GZ''] \<in> set (files [''r''] ''.gz'' [''r'', ''out.gz''] None ?fs)"
    by (rule iffD2[rotated])
  have r2: "lower (path_suffix [''r'', ''a.tar.GZ'']) \<noteq> lower ''.tar''" by code_simp
  from T2 have "([''r'', ''a.tar.GZ''] \<in> set (files [''r''] ''.tar'' [''r'', ''out.gz''] None ?fs)) =
       ([''r'', ''a.tar.GZ''] \<in> set (rglob ?fs [''r'']) \<and> is_file ?fs [''r'', ''a.tar.GZ'']
        \<and> lower (path_suffix [''r'', ''a.tar.GZ'']) = lower ''.tar''
        \<and> \<not> (case None :: (string \<Rightarrow> bool) option of None \<Rightarrow> False
               | Some m \<Rightarrow> m (as_posix (relative_to [''r'', ''a.tar.GZ''] [''r''])))
        \<and> [''r'', ''a.tar.GZ''] \<noteq> [''r'', ''out.gz''])"
    by blast
  with r2 have w5: "[''r'', ''a.tar.GZ''] \<notin> set (files [''r''] ''.tar'' [''r'', ''out.gz''] None ?fs)"
    by blast
  from T1 have "[''r''] @ [CHR ''.'' # ''GZ''] \<notin> set (files [''r''] (CHR ''.'' # ''GZ'') [''r'', ''out.gz''] None ?fs)"
    by blast
  then have w6: "[''r'', ''.GZ''] \<notin> set (files [''r''] ''.GZ'' [''r'', ''out.gz''] None ?fs)"
    by simp
  have w7: "[''r'', ''.GZ''] \<in> set (rglob ?fs [''r''])" by code_simp
  have w8: "is_file ?fs [''r'', ''.GZ'']" by code_simp
  show ?thesis
    by (intro conjI) (rule h1, rule h2, rule h3, rule h4, rule w1, rule w2, rule w3, rule w4,
        rule w5, rule w6, rule w7, rule w8)
qed

lemma walk_under: "p \<in> set (walk r n) \<Longrightarrow> \<exists>rel. rel \<noteq> [] \<and> p = r @ rel"
proof (induction r n arbitrary: p rule: walk.induct)
  case (1 p c)
  then show ?case by simp
next
  case (2 r es)
  from "2.prems" obtain x n where xn: "(x, n) \<in> set es"
    and p: "p = r @ [x] \<or> p \<in> set (walk (r @ [x]) n)" by auto
  from p show ?case
  proof
    assume "p = r @ [x]"
    then show ?thesis by blast
  next
    assume "p \<in> set (walk (r @ [x]) n)"
    from "2.IH"[OF xn refl this] obtain rel where "p = (r @ [x]) @ rel" by blast
    then have "p = r @ (x # rel)" by simp
    then show ?thesis by blast
  qed
qed

text \<open>Every path that \<open>rglob\<close> yields lies strictly below the root of the walk.\<close>

lemma rglob_under_root: "p \<in> set (rglob fs root) \<Longrightarrow> \<exists>rel. rel \<noteq> [] \<and> p = root @ rel"
  by (auto simp: rglob_def split: option.splits dest: walk_under)

lemma files_under_root:
  "p \<in> set (files root ext output spec fs) \<Longrightarrow> \<exists>rel. rel \<noteq> [] \<and> p = root @ rel"
  using rglob_under_root[of p fs root] by (auto simp: set_files resolve_def)

lemma append_le_append: "(r @ a \<le> r @ b) \<longleftrightarrow> (a \<le> (b :: 'a :: linorder list))"
  by (induction r) auto

lemma sorted_files: "sorted (files root ext output spec fs)"
  by (simp add: files_def)

lemma relative_to_append: "relative_to (root @ a) root = a"
  by (simp add: relative_to_def)

lemma sorted_map_append: "sorted (map ((@) r) xs) \<longleftrightarrow> sorted (xs :: 'a :: linorder list list)"
  by (induction xs) (auto simp: append_le_append)

lemma sorted_relative_files:
  "sorted (map (\<lambda>p. relative_to p root) (files root ext output spec fs))"
proof -
  let ?fs = "files root ext output spec fs"
  have "\<forall>p \<in> set ?fs. p = root @ relative_to p root"
  proof
    fix p assume "p \<in> set ?fs"
    then obtain rel where "p = root @ rel" using files_under_root by blast
    then show "p = root @ relative_to p root" by (simp add: relative_to_append)
  qed
  then have "map ((@) root) (map (\<lambda>p. relative_to p root) ?fs) = ?fs"
    by (simp add: map_idI)
  then have "sorted (map ((@) root) (map (\<lambda>p. relative_to p root) ?fs))"
    using sorted_files by simp
  then show ?thesis by (simp only: sorted_map_append)
qed

text \<open>
  C1, as the claim states it, fails. Below \<open>/r\<close> are the files \<open>docs.txt\<close> and
  \<open>docs/x.txt\<close>. \<open>files.sort()\<close> compares path objects, component by component, and
  puts \<open>docs/x.txt\<close> first, because the component \<open>docs\<close> is a prefix of \<open>docs.txt\<close>;
  as strings, \<open>docs.txt\<close> is the smaller, because \<open>.\<close> comes before \<open>/\<close>.
\<close>

theorem files_not_in_string_order:
  "files [''r''] ''.txt'' [''r'', ''aggregated.txt''] None
     (Dir [(''r'', Dir [(''docs.txt'', File (Text ''y'')),
                        (''docs'', Dir [(''x.txt'', File (Text ''x''))])])])
   = [[''r'', ''docs'', ''x.txt''], [''r'', ''docs.txt'']]
   \<and> as_posix (relative_to [''r'', ''docs.txt''] [''r''])
       < as_posix (relative_to [''r'', ''docs'', ''x.txt''] [''r''])"
  by code_simp

text \<open>
  C1, amended. The files aggregated are the entries below the root that are regular
  files, whose lowercased suffix is the lowercased filter, whose relative path the
  matcher does not match, and that are not the output file. They are written in the
  ascending order of their paths, compared component by component (each component by
  the codes of its characters, a path before the paths that extend it); the relative
  paths are in the same order.
\<close>

theorem files_filtered_and_sorted_by_components:
  "set (files root ext output spec fs) =
     {p \<in> set (rglob fs root).
        is_file fs p
        \<and> lower (path_suffix p) = lower ext
        \<and> \<not> (case spec of None \<Rightarrow> False | Some m \<Rightarrow> m (as_posix (relative_to p root)))
        \<and> p \<noteq> output}
   \<and> sorted (files root ext output spec fs)
   \<and> sorted (map (\<lambda>p. relative_to p root) (files root ext output spec fs))"
proof -
  have members: "set (files root ext output spec fs) =
     {p \<in> set (rglob fs root).
        is_file fs p
        \<and> lower (path_suffix p) = lower ext
        \<and> \<not> (case spec of None \<Rightarrow> False | Some m \<Rightarrow> m (as_posix (relative_to p root)))
        \<and> p \<noteq> output}"
    unfolding set_files resolve_def
    by (rule Collect_cong) (rule iffI; elim conjE; intro conjI; assumption)
  show ?thesis
    by (intro conjI) (rule members, rule sorted_files, rule sorted_relative_files)
qed

text \<open>
  C3. The output path is not in the list of candidates, whatever lies at it: the loop
  of lines 53 to 65 runs over that list only, so no block is written for the output
  file.
\<close>

theorem output_not_a_candidate:
  "resolve output \<notin> set (files root ext output spec fs)"
  by (simp add: set_files resolve_def)

section \<open>The normalisation of the filter\<close>

lemma lower_char_idem: "lower_char (lower_char c) = lower_char c"
  by (auto simp: lower_char_def split: option.splits if_splits)

lemma lower_idem: "lower (lower s) = lower s"
  by (simp add: lower_def lower_char_idem)

lemma files_lower: "files root (lower ext) output spec fs = files root ext output spec fs"
  by (simp add: files_def lower_idem)

lemma aggregate_files_lower:
  "aggregate_files root (lower ext) output spec fs = aggregate_files root ext output spec fs"
  by (simp add: aggregate_files_def files_lower)

text \<open>A suffix is empty or starts with a dot: a filter without one matches only the empty suffix.\<close>

lemma dotless_filter_selects_nothing:
  assumes "ext \<noteq> []" and "\<not> prefix ''.'' ext"
  shows "files root ext output spec fs = []"
proof -
  have "lower (path_suffix p) \<noteq> lower ext" for p
  proof
    assume eq: "lower (path_suffix p) = lower ext"
    from assms(1) obtain c e where ext: "ext = c # e" by (cases ext) auto
    from path_suffix_shape[of p] show False
    proof
      assume "path_suffix p = []"
      with eq ext show False by (simp add: lower_def)
    next
      assume "\<exists>t. path_suffix p = CHR ''.'' # t \<and> CHR ''.'' \<notin> set t"
      then obtain t where "path_suffix p = CHR ''.'' # t" by blast
      with eq ext have "lower_char c = lower_char CHR ''.''" by (simp add: lower_def)
      then have "c = CHR ''.''" using lower_char_dot[of c] lower_char_dot[of "CHR ''.''"] by simp
      with ext assms(2) show False by simp
    qed
  qed
  then have "set (files root ext output spec fs) = {}"
    unfolding set_files by blast
  then show ?thesis by simp
qed

text \<open>
  C7, as the claim states it, fails for a call of the aggregator: \<open>aggregate_files\<close>
  only lowercases its filter. With \<open>a.txt\<close> under the root, the filter \<open>txt\<close> selects
  no file and the filter \<open>.txt\<close> selects one.
\<close>

theorem aggregator_does_not_add_the_dot:
  "fst (aggregate_files [''r''] ''txt'' [''r'', ''out.txt''] None
          (Dir [(''r'', Dir [(''a.txt'', File (Text ''y''))])])) = Inr 0
   \<and> fst (aggregate_files [''r''] ''.txt'' [''r'', ''out.txt''] None
          (Dir [(''r'', Dir [(''a.txt'', File (Text ''y''))])])) = Inr 1"
  by code_simp

text \<open>
  C7, amended. The aggregator lowercases the filter and the suffix of each file before
  it compares them, so extension matching is case-insensitive on both sides: a file is
  a candidate exactly when, among the other conditions, its lowercased suffix is the
  lowercased filter, and two filters that differ in case only give the same run. The
  leading dot is not ensured by the aggregator but by \<open>main\<close>, before it calls the
  aggregator: through \<open>main\<close> a filter without the dot gives the run that the filter
  with the dot gives, and the aggregator called with a non-empty filter without the
  dot selects no file.
\<close>

theorem filter_lowercased_dot_by_main:
  "aggregate_files root ext output spec fs = aggregate_files root (lower ext) output spec fs
   \<and> (p \<in> set (files root ext output spec fs)) =
       (p \<in> set (rglob fs root) \<and> is_file fs p
        \<and> lower (path_suffix p) = lower ext
        \<and> \<not> (case spec of None \<Rightarrow> False | Some m \<Rightarrow> m (as_posix (relative_to p root)))
        \<and> p \<noteq> output)
   \<and> (lower ext = lower ext' \<longrightarrow>
        aggregate_files root ext output spec fs = aggregate_files root ext' output spec fs)
   \<and> (\<not> prefix ''.'' e \<longrightarrow> main root e out spec fs = main root (''.'' @ e) out spec fs)
   \<and> (\<not> prefix ''.'' e \<longrightarrow> e \<noteq> [] \<longrightarrow> files root e output spec fs = [])"
proof (intro conjI impI)
  show "aggregate_files root ext output spec fs = aggregate_files root (lower ext) output spec fs"
    by (simp add: aggregate_files_lower)
next
  show "(p \<in> set (files root ext output spec fs)) =
       (p \<in> set (rglob fs root) \<and> is_file fs p
        \<and> lower (path_suffix p) = lower ext
        \<and> \<not> (case spec of None \<Rightarrow> False | Some m \<Rightarrow> m (as_posix (relative_to p root)))
        \<and> p \<noteq> output)"
    by (rule mem_files)
next
  assume "lower ext = lower ext'"
  then show "aggregate_files root ext output spec fs = aggregate_files root ext' output spec fs"
    using aggregate_files_lower[of root ext] aggregate_files_lower[of root ext'] by simp
next
  assume "\<not> prefix ''.'' e"
  then show "main root e out spec fs = main root (''.'' @ e) out spec fs"
    by (simp add: main_def)
next
  assume "\<not> prefix ''.'' e" and "e \<noteq> []"
  then show "files root e output spec fs = []"
    by (simp add: dotless_filter_selects_nothing)
qed

theorem filter_lowercased_dot_by_main_witness:
  "fst (aggregate_files [''r''] ''.TXT'' [''r'', ''out.txt''] None
          (Dir [(''r'', Dir [(''a.TXT'', File (Text ''x'')), (''b.txt'', File (Text ''y'')),
                             (''c.md'', File (Text ''z''))])])) = Inr 2
   \<and> aggregate_files [''r''] ''.TXT'' [''r'', ''out.txt''] None
          (Dir [(''r'', Dir [(''a.TXT'', File (Text ''x'')), (''b.txt'', File (Text ''y'')),
                             (''c.md'', File (Text ''z''))])])
     = aggregate_files [''r''] (lower ''.TXT'') [''r'', ''out.txt''] None
          (Dir [(''r'', Dir [(''a.TXT'', File (Text ''x'')), (''b.txt'', File (Text ''y'')),
                             (''c.md'', File (Text ''z''))])])
   \<and> [''r'', ''b.txt''] \<in> set (files [''r''] ''.TXT'' [''r'', ''out.txt''] None
          (Dir [(''r'', Dir [(''a.TXT'', File (Text ''x'')), (''b.txt'', File (Text ''y'')),
                             (''c.md'', File (Text ''z''))])]))
   \<and> [''r'', ''a.TXT''] \<in> set (files [''r''] ''.txt'' [''r'', ''out.txt''] None
          (Dir [(''r'', Dir [(''a.TXT'', File (Text ''x'')), (''b.txt'', File (Text ''y'')),
                             (''c.md'', File (Text ''z''))])]))
   \<and> lower ''.TXT'' = lower ''.txt''
   \<and> aggregate_files [''r''] ''.TXT'' [''r'', ''out.txt''] None
          (Dir [(''r'', Dir [(''a.TXT'', File (Text ''x'')), (''b.txt'', File (Text ''y'')),
                             (''c.md'', File (Text ''z''))])])
     = aggregate_files [''r''] ''.txt'' [''r'', ''out.txt''] None
          (Dir [(''r'', Dir [(''a.TXT'', File (Text ''x'')), (''b.txt'', File (Text ''y'')),
                             (''c.md'', File (Text ''z''))])])
   \<and> \<not> prefix ''.'' ''TXT'' \<and> ''TXT'' \<noteq> []
   \<and> main [''r''] ''TXT'' (Some [''r'', ''out.txt'']) None
          (Dir [(''r'', Dir [(''a.TXT'', File (Text ''x'')), (''b.txt'', File (Text ''y'')),
                             (''c.md'', File (Text ''z''))])])
     = main [''r''] (''.'' @ ''TXT'') (Some [''r'', ''out.txt'']) None
          (Dir [(''r'', Dir [(''a.TXT'', File (Text ''x'')), (''b.txt'', File (Text ''y'')),
                             (''c.md'', File (Text ''z''))])])
   \<and> fst (main [''r''] ''TXT'' (Some [''r'', ''out.txt'']) None
          (Dir [(''r'', Dir [(''a.TXT'', File (Text ''x'')), (''b.txt'', File (Text ''y'')),
                             (''c.md'', File (Text ''z''))])])) = Inr 2
   \<and> files [''r''] ''TXT'' [''r'', ''out.txt''] None
          (Dir [(''r'', Dir [(''a.TXT'', File (Text ''x'')), (''b.txt'', File (Text ''y'')),
                             (''c.md'', File (Text ''z''))])]) = []"
proof -
  let ?fs = "Dir [(''r'', Dir [(''a.TXT'', File (Text ''x'')), (''b.txt'', File (Text ''y'')),
                             (''c.md'', File (Text ''z''))])]"
  note T1 = filter_lowercased_dot_by_main[of "[''r'']" "''.TXT''" "[''r'', ''out.txt'']" None ?fs
      "[''r'', ''b.txt'']" "''.txt''" "''TXT''" "Some [''r'', ''out.txt'']"]
  note T2 = filter_lowercased_dot_by_main[of "[''r'']" "''.txt''" "[''r'', ''out.txt'']" None ?fs
      "[''r'', ''a.TXT'']" "''.TXT''" "''TXT''" "Some [''r'', ''out.txt'']"]
  have w1: "fst (aggregate_files [''r''] ''.TXT'' [''r'', ''out.txt''] None ?fs) = Inr 2"
    by code_simp
  from T1 have w2: "aggregate_files [''r''] ''.TXT'' [''r'', ''out.txt''] None ?fs
      = aggregate_files [''r''] (lower ''.TXT'') [''r'', ''out.txt''] None ?fs"
    by (rule conjunct1)
  have r3: "[''r'', ''b.txt''] \<in> set (rglob ?fs [''r'']) \<and> is_file ?fs [''r'', ''b.txt'']
        \<and> lower (path_suffix [''r'', ''b.txt'']) = lower ''.TXT''
        \<and> \<not> (case None :: (string \<Rightarrow> bool) option of None \<Rightarrow> False
               | Some m \<Rightarrow> m (as_posix (relative_to [''r'', ''b.txt''] [''r''])))
        \<and> [''r'', ''b.txt''] \<noteq> [''r'', ''out.txt'']"
    by code_simp
  from T1 r3 have w3: "[''r'', ''b.txt''] \<in> set (files [''r''] ''.TXT'' [''r'', ''out.txt''] None ?fs)"
    by blast
  have r4: "[''r'', ''a.TXT''] \<in> set (rglob ?fs [''r'']) \<and> is_file ?fs [''r'', ''a.TXT'']
        \<and> lower (path_suffix [''r'', ''a.TXT'']) = lower ''.txt''
        \<and> \<not> (case None :: (string \<Rightarrow> bool) option of None \<Rightarrow> False
               | Some m \<Rightarrow> m (as_posix (relative_to [''r'', ''a.TXT''] [''r''])))
        \<and> [''r'', ''a.TXT''] \<noteq> [''r'', ''out.txt'']"
    by code_simp
  from T2 r4 have w4: "[''r'', ''a.TXT''] \<in> set (files [''r''] ''.txt'' [''r'', ''out.txt''] None ?fs)"
    by blast
  have w5: "lower ''.TXT'' = lower ''.txt''" by code_simp
  from T1 w5 have w6: "aggregate_files [''r''] ''.TXT'' [''r'', ''out.txt''] None ?fs
      = aggregate_files [''r''] ''.txt'' [''r'', ''out.txt''] None ?fs"
    by blast
  have w7: "\<not> prefix ''.'' ''TXT''" and w8: "''TXT'' \<noteq> []" by simp_all
  from T1 w7 have w9: "main [''r''] ''TXT'' (Some [''r'', ''out.txt'']) None ?fs
      = main [''r''] (''.'' @ ''TXT'') (Some [''r'', ''out.txt'']) None ?fs"
    by blast
  have w10: "fst (main [''r''] ''TXT'' (Some [''r'', ''out.txt'']) None ?fs) = Inr 2"
    by code_simp
  from T1 w7 w8 have w11: "files [''r''] ''TXT'' [''r'', ''out.txt''] None ?fs = []"
    by blast
  show ?thesis
    by (intro conjI) (rule w1, rule w2, rule w3, rule w4, rule w5, rule w6, rule w7, rule w8,
        rule w9, rule w10, rule w11)
qed


section \<open>Ignored directories\<close>

lemma join_append:
  "a \<noteq> [] \<Longrightarrow> b \<noteq> [] \<Longrightarrow> join sep (a @ b) = join sep a @ sep @ join sep b"
proof (induction sep a rule: join.induct)
  case (1 sep)
  then show ?case by simp
next
  case (2 sep x)
  then show ?case by (cases b) auto
next
  case (3 sep x y ys)
  then show ?case by simp
qed

lemma as_posix_prefix:
  assumes "strict_prefix a b" and "a \<noteq> []"
  shows "prefix (as_posix a) (as_posix b)"
proof -
  from assms(1) obtain s where b: "b = a @ s" and "s \<noteq> []"
    by (auto simp: strict_prefix_def prefix_def)
  with assms(2) show ?thesis
    by (simp add: as_posix_def join_append)
qed

lemma relative_to_strict_prefix:
  assumes "d \<in> set (rglob fs root)" and "strict_prefix d q"
  shows "strict_prefix (relative_to d root) (relative_to q root)"
proof -
  from assms(1) obtain rel where d: "d = root @ rel" using rglob_under_root by blast
  from assms(2) obtain s where q: "q = d @ s" and s: "s \<noteq> []"
    by (auto simp: strict_prefix_def prefix_def)
  from d q s show ?thesis by (simp add: relative_to_def strict_prefix_def)
qed

text \<open>
  C8, as the claim states it, fails. The loop tests each entry by its own relative
  path, and \<open>rglob\<close> descends into every directory, matched or not. With a matcher that
  matches \<open>build\<close> and nothing else, the directory \<open>build\<close> is matched and the file
  \<open>build/a.txt\<close> below it is a candidate.
\<close>

theorem matched_directory_not_pruned:
  "[''r'', ''build''] \<in> set (rglob (Dir [(''r'', Dir [(''build'', Dir [(''a.txt'', File (Text ''y''))])])]) [''r''])
   \<and> \<not> is_file (Dir [(''r'', Dir [(''build'', Dir [(''a.txt'', File (Text ''y''))])])]) [''r'', ''build'']
   \<and> ''build'' = as_posix (relative_to [''r'', ''build''] [''r''])
   \<and> strict_prefix [''r'', ''build''] [''r'', ''build'', ''a.txt'']
   \<and> files [''r''] ''.txt'' [''r'', ''out.txt''] (Some ((=) ''build''))
         (Dir [(''r'', Dir [(''build'', Dir [(''a.txt'', File (Text ''y''))])])])
       = [[''r'', ''build'', ''a.txt'']]"
  by code_simp

text \<open>
  C8, amended. When the matcher matches the relative path of a directory entry under
  the root, and matches every path below a path that it matches (as the patterns of a
  gitignore file without negation do), no descendant of that directory is a candidate.
  The exclusion comes from the matcher applied to the path of each descendant; the
  aggregator does not prune the walk.
\<close>

theorem subtree_excluded_when_matcher_covers_it:
  assumes "d \<in> set (rglob fs root)"
    and "m (as_posix (relative_to d root))"
    and "strict_prefix d q"
    and "\<forall>a b. m (as_posix a) \<longrightarrow> strict_prefix a b \<longrightarrow> m (as_posix b)"
  shows "q \<notin> set (files root ext output (Some m) fs)"
proof -
  have "strict_prefix (relative_to d root) (relative_to q root)"
    using assms(1,3) by (rule relative_to_strict_prefix)
  with assms(2,4) have "m (as_posix (relative_to q root))" by blast
  then show ?thesis by (simp add: set_files resolve_def)
qed

text \<open>A matcher of that kind: the relative paths that start with \<open>build\<close>.\<close>

lemma prefix_build_closed:
  "\<forall>a b. prefix ''build'' (as_posix a) \<longrightarrow> strict_prefix a b \<longrightarrow> prefix ''build'' (as_posix b)"
proof (intro allI impI)
  fix a b :: path
  assume m: "prefix ''build'' (as_posix a)" and sp: "strict_prefix a b"
  from m have "a \<noteq> []" by (auto simp: as_posix_def)
  with sp have "prefix (as_posix a) (as_posix b)" by (rule as_posix_prefix)
  with m show "prefix ''build'' (as_posix b)" by (rule prefix_order.trans)
qed

theorem subtree_excluded_when_matcher_covers_it_witness:
  "[''r'', ''build''] \<in> set (rglob (Dir [(''r'', Dir [(''build'', Dir [(''a.txt'', File (Text ''y''))])])]) [''r''])
   \<and> prefix ''build'' (as_posix (relative_to [''r'', ''build''] [''r'']))
   \<and> strict_prefix [''r'', ''build''] [''r'', ''build'', ''a.txt'']
   \<and> [''r'', ''build'', ''a.txt''] \<notin> set (files [''r''] ''.txt'' [''r'', ''out.txt''] (Some (prefix ''build''))
         (Dir [(''r'', Dir [(''build'', Dir [(''a.txt'', File (Text ''y''))])])]))"
proof -
  let ?fs = "Dir [(''r'', Dir [(''build'', Dir [(''a.txt'', File (Text ''y''))])])]"
  have 1: "[''r'', ''build''] \<in> set (rglob ?fs [''r''])" by code_simp
  have 2: "prefix ''build'' (as_posix (relative_to [''r'', ''build''] [''r'']))" by code_simp
  have 3: "strict_prefix [''r'', ''build''] [''r'', ''build'', ''a.txt'']" by code_simp
  note 4 = prefix_build_closed
  from subtree_excluded_when_matcher_covers_it[OF 1 2 3 4] 1 2 3 show ?thesis by blast
qed

section \<open>The empty result\<close>

text \<open>
  C10. When no file survives the filters, the aggregator returns 0 and the file
  system is as it was: the output file is not created, nor truncated when it exists,
  and no directory is created, since \<open>mkdir\<close> and \<open>open\<close> come after the test of the
  empty list.
\<close>

theorem no_candidates_nothing_changed:
  "files root ext output spec fs = [] \<Longrightarrow> aggregate_files root ext output spec fs = (Inr 0, fs)"
  by (simp add: aggregate_files_def)

theorem no_candidates_nothing_changed_witness:
  "files [''r''] ''.txt'' [''r'', ''out.txt''] None
      (Dir [(''r'', Dir [(''notes.md'', File (Text ''n'')), (''out.txt'', File (Text ''old''))])]) = []
   \<and> aggregate_files [''r''] ''.txt'' [''r'', ''out.txt''] None
      (Dir [(''r'', Dir [(''notes.md'', File (Text ''n'')), (''out.txt'', File (Text ''old''))])])
     = (Inr 0, Dir [(''r'', Dir [(''notes.md'', File (Text ''n'')), (''out.txt'', File (Text ''old''))])])
   \<and> files [''r''] ''.txt'' [''r'', ''new'', ''out.txt''] None
      (Dir [(''r'', Dir [(''notes.md'', File (Text ''n''))])]) = []
   \<and> aggregate_files [''r''] ''.txt'' [''r'', ''new'', ''out.txt''] None
      (Dir [(''r'', Dir [(''notes.md'', File (Text ''n''))])])
     = (Inr 0, Dir [(''r'', Dir [(''notes.md'', File (Text ''n''))])])"
proof -
  have 1: "files [''r''] ''.txt'' [''r'', ''out.txt''] None
      (Dir [(''r'', Dir [(''notes.md'', File (Text ''n'')), (''out.txt'', File (Text ''old''))])]) = []"
    by code_simp
  have 2: "files [''r''] ''.txt'' [''r'', ''new'', ''out.txt''] None
      (Dir [(''r'', Dir [(''notes.md'', File (Text ''n''))])]) = []"
    by code_simp
  from no_candidates_nothing_changed[OF 1] no_candidates_nothing_changed[OF 2] 1 2
  show ?thesis by blast
qed

section \<open>What creating and writing the output leaves alone\<close>

text \<open>
  Creating the directories of the output path, opening the output file and closing it
  change no regular file other than the output file.
\<close>

lemma lookup_empty_dir_file [simp]: "lookup (Dir []) q \<noteq> Some (File c)"
  by (cases q) auto

lemma mkdir_keeps_files:
  "mkdir t p = Inr t' \<Longrightarrow> (lookup t' q = Some (File c)) = (lookup t q = Some (File c))"
proof (induction t p arbitrary: t' q rule: mkdir.induct)
  case (1 c)
  then show ?case by simp
next
  case (2 c x xs)
  then show ?case by simp
next
  case (3 es)
  then show ?case by simp
next
  case (4 es x xs)
  let ?n0 = "case map_of es x of None \<Rightarrow> Dir [] | Some n \<Rightarrow> n"
  from "4.prems" obtain n' where n': "mkdir ?n0 xs = Inr n'" and t': "t' = Dir (AList.update x n' es)"
    by (auto split: sum.splits)
  show ?case
  proof (cases q)
    case Nil
    then show ?thesis by (simp add: t')
  next
    case (Cons y ys)
    show ?thesis
    proof (cases "y = x")
      case True
      have "(lookup n' ys = Some (File c)) = (lookup ?n0 ys = Some (File c))"
        using "4.IH"[OF n'] .
      then show ?thesis
        using Cons True by (simp add: t' update_conv' split: option.splits)
    next
      case False
      then show ?thesis using Cons by (simp add: t' update_conv')
    qed
  qed
qed

lemma open_w_keeps_files:
  "open_w t p = Inr t' \<Longrightarrow> q \<noteq> p \<Longrightarrow> (lookup t' q = Some (File c)) = (lookup t q = Some (File c))"
proof (induction t p arbitrary: t' q rule: open_w.induct)
  case (1 c0)
  then show ?case by (cases q) auto
next
  case (2 es)
  then show ?case by simp
next
  case (3 c0 x xs)
  then show ?case by simp
next
  case (4 es x xs)
  show ?case
  proof (cases q)
    case Nil
    with "4.prems" show ?thesis by (auto split: option.splits sum.splits if_splits)
  next
    case (Cons y ys)
    show ?thesis
    proof (cases "map_of es x")
      case None
      with "4.prems" have xs: "xs = []" and t': "t' = Dir (AList.update x (File (Text [])) es)"
        by (auto split: if_splits)
      show ?thesis
      proof (cases "y = x")
        case True
        with Cons "4.prems"(2) xs have "ys \<noteq> []" by auto
        then obtain z zs where "ys = z # zs" by (cases ys) auto
        then show ?thesis using Cons True None by (simp add: t' update_conv')
      next
        case False
        then show ?thesis using Cons by (simp add: t' update_conv')
      qed
    next
      case (Some n)
      with "4.prems" obtain n' where n': "open_w n xs = Inr n'" and t': "t' = Dir (AList.update x n' es)"
        by (auto split: sum.splits)
      show ?thesis
      proof (cases "y = x")
        case True
        with Cons "4.prems"(2) have "ys \<noteq> xs" by auto
        from "4.IH"[OF Some n' this] show ?thesis
          using Cons True Some by (simp add: t' update_conv')
      next
        case False
        then show ?thesis using Cons by (simp add: t' update_conv')
      qed
    qed
  qed
qed

lemma open_w_creates: "open_w t p = Inr t' \<Longrightarrow> lookup t' p = Some (File (Text []))"
proof (induction t p arbitrary: t' rule: open_w.induct)
  case (4 es x xs)
  then show ?case
    by (auto simp: update_conv' split: option.splits sum.splits if_splits)
qed auto

lemma close_stores: "lookup t p = Some (File c) \<Longrightarrow> lookup (close t p s) p = Some (File (Text s))"
proof (induction t p s rule: close.induct)
  case (4 es x xs s)
  then show ?case by (auto simp: update_conv' split: option.splits)
qed auto

lemma close_keeps_files:
  "q \<noteq> p \<Longrightarrow> (lookup (close t p s) q = Some (File c)) = (lookup t q = Some (File c))"
proof (induction t p s arbitrary: q rule: close.induct)
  case (1 c0 s)
  then show ?case by (cases q) auto
next
  case (2 es s)
  then show ?case by simp
next
  case (3 c0 x xs s)
  then show ?case by simp
next
  case (4 es x xs s)
  show ?case
  proof (cases q)
    case Nil
    then show ?thesis by (auto split: option.splits)
  next
    case (Cons y ys)
    show ?thesis
    proof (cases "map_of es x")
      case None
      then show ?thesis by simp
    next
      case (Some n)
      show ?thesis
      proof (cases "y = x")
        case True
        with Cons "4.prems" have "ys \<noteq> xs" by auto
        from "4.IH"[OF Some this] show ?thesis
          using Cons True Some by (simp add: update_conv')
      next
        case False
        then show ?thesis using Cons Some by (simp add: update_conv')
      qed
    qed
  qed
qed

section \<open>The output artifact\<close>

text \<open>The write loop appends one block of the specification for each file, in order.\<close>

lemma write_blocks_eq:
  "write_blocks fs root fps out_f = out_f @ concat (map (spec_block fs root) fps)"
  by (induction fps arbitrary: out_f)
     (auto simp: Let_def spec_block_def spec_content_def separator_def split: sum.splits)

lemma candidate_is_file:
  "p \<in> set (files root ext output spec fs) \<Longrightarrow> \<exists>c. lookup fs p = Some (File c)"
  by (auto simp: set_files is_file_def split: option.splits node.splits)

lemma candidate_not_output:
  "p \<in> set (files root ext output spec fs) \<Longrightarrow> p \<noteq> output"
  by (auto simp: set_files resolve_def)

lemma candidate_read_unchanged:
  assumes "p \<in> set (files root ext output spec fs)"
    and "mkdir fs (parent output) = Inr fs1" and "open_w fs1 output = Inr fs2"
  shows "read_text fs2 p = read_text fs p"
proof -
  from assms(1) obtain c where c: "lookup fs p = Some (File c)"
    using candidate_is_file by blast
  from assms(1) have ne: "p \<noteq> output" by (rule candidate_not_output)
  from c have "lookup fs1 p = Some (File c)"
    using mkdir_keeps_files[OF assms(2)] by simp
  then have "lookup fs2 p = Some (File c)"
    using open_w_keeps_files[OF assms(3) ne] by simp
  with c show ?thesis by (simp add: read_text_def)
qed

lemma candidate_blocks_unchanged:
  assumes "mkdir fs (parent output) = Inr fs1" and "open_w fs1 output = Inr fs2"
  shows "map (spec_block fs2 root) (files root ext output spec fs)
         = map (spec_block fs root) (files root ext output spec fs)"
proof (rule map_cong[OF refl])
  fix p assume "p \<in> set (files root ext output spec fs)"
  then have "read_text fs2 p = read_text fs p"
    using assms by (rule candidate_read_unchanged)
  then show "spec_block fs2 root p = spec_block fs root p"
    by (simp add: spec_block_def spec_content_def)
qed

text \<open>What a run does when there are candidates and the output can be created.\<close>

lemma aggregate_files_success:
  assumes "files root ext output spec fs \<noteq> []"
    and "mkdir fs (parent output) = Inr fs1" and "open_w fs1 output = Inr fs2"
  shows "aggregate_files root ext output spec fs =
           (Inr (length (files root ext output spec fs)),
            close fs2 output (concat (map (spec_block fs root) (files root ext output spec fs))))"
proof -
  have eq: "map (spec_block fs2 root) (files root ext output spec fs)
        = map (spec_block fs root) (files root ext output spec fs)"
    using assms(2,3) by (rule candidate_blocks_unchanged)
  from assms show ?thesis
    unfolding aggregate_files_def resolve_def Let_def
    by (simp add: write_blocks_eq eq)
qed

lemma aggregate_files_Inr:
  assumes "aggregate_files root ext output spec fs = (Inr n, fs')"
    and "files root ext output spec fs \<noteq> []"
  shows "\<exists>fs1 fs2. mkdir fs (parent output) = Inr fs1 \<and> open_w fs1 output = Inr fs2"
  using assms unfolding aggregate_files_def resolve_def Let_def
  by (auto split: sum.splits)

text \<open>What a completed run leaves at the output path, and the count it returns.\<close>

lemma run_leaves_the_blocks:
  assumes "aggregate_files root ext output spec fs = (Inr n, fs')"
    and "files root ext output spec fs \<noteq> []"
  shows "n = length (files root ext output spec fs)
         \<and> lookup fs' output =
             Some (File (Text (concat (map (spec_block fs root) (files root ext output spec fs)))))"
proof -
  from assms obtain fs1 fs2 where mk: "mkdir fs (parent output) = Inr fs1"
    and op: "open_w fs1 output = Inr fs2"
    using aggregate_files_Inr by blast
  from aggregate_files_success[OF assms(2) mk op] assms(1)
  have n: "n = length (files root ext output spec fs)"
    and fs': "fs' = close fs2 output (concat (map (spec_block fs root) (files root ext output spec fs)))"
    by simp_all
  from open_w_creates[OF op] have "lookup fs' output =
      Some (File (Text (concat (map (spec_block fs root) (files root ext output spec fs)))))"
    unfolding fs' by (rule close_stores)
  with n show ?thesis by simp
qed


text \<open>
  C2. When the list of candidates is not empty and the run returns a count, the output
  file holds, for each candidate in the order of the list, its block as the
  specification words it: the relative path joined by \<open>/\<close> and a newline, the content as
  \<open>read_text\<close> gave it before the run, a newline if the content does not end with one,
  80 dashes, a newline and one more newline. The count is the number of candidates.
\<close>

theorem artifact_is_the_blocks_in_order:
  assumes "aggregate_files root ext output spec fs = (Inr n, fs')"
    and "files root ext output spec fs \<noteq> []"
  shows "n = length (files root ext output spec fs)
         \<and> lookup fs' output =
             Some (File (Text (concat (map (spec_block fs root) (files root ext output spec fs)))))"
  using assms by (rule run_leaves_the_blocks)

theorem artifact_is_the_blocks_in_order_witness:
  "files [''r''] ''.txt'' [''r'', ''aggregated.txt''] (Some ((=) ''ignore.txt''))
     (Dir [(''r'', Dir [(''sub'', Dir [(''b.txt'', File (Text ''world\<newline>''))]),
                        (''ignore.txt'', File (Text ''no'')),
                        (''a.txt'', File (Text ''hello''))])])
   = [[''r'', ''a.txt''], [''r'', ''sub'', ''b.txt'']]
   \<and> fst (aggregate_files [''r''] ''.txt'' [''r'', ''aggregated.txt''] (Some ((=) ''ignore.txt''))
     (Dir [(''r'', Dir [(''sub'', Dir [(''b.txt'', File (Text ''world\<newline>''))]),
                        (''ignore.txt'', File (Text ''no'')),
                        (''a.txt'', File (Text ''hello''))])])) = Inr 2
   \<and> lookup (snd (aggregate_files [''r''] ''.txt'' [''r'', ''aggregated.txt''] (Some ((=) ''ignore.txt''))
     (Dir [(''r'', Dir [(''sub'', Dir [(''b.txt'', File (Text ''world\<newline>''))]),
                        (''ignore.txt'', File (Text ''no'')),
                        (''a.txt'', File (Text ''hello''))])]))) [''r'', ''aggregated.txt'']
     = Some (File (Text (''a.txt\<newline>hello\<newline>'' @ replicate 80 CHR ''-'' @ ''\<newline>\<newline>''
                         @ ''sub/b.txt\<newline>world\<newline>'' @ replicate 80 CHR ''-'' @ ''\<newline>\<newline>'')))"
proof -
  let ?fs = "Dir [(''r'', Dir [(''sub'', Dir [(''b.txt'', File (Text ''world\<newline>''))]),
                        (''ignore.txt'', File (Text ''no'')),
                        (''a.txt'', File (Text ''hello''))])]"
  let ?run = "aggregate_files [''r''] ''.txt'' [''r'', ''aggregated.txt''] (Some ((=) ''ignore.txt'')) ?fs"
  have f: "files [''r''] ''.txt'' [''r'', ''aggregated.txt''] (Some ((=) ''ignore.txt'')) ?fs
           = [[''r'', ''a.txt''], [''r'', ''sub'', ''b.txt'']]"
    by code_simp
  have r: "fst ?run = Inr 2" by code_simp
  then have run: "?run = (Inr 2, snd ?run)" by (metis prod.collapse)
  have ne: "files [''r''] ''.txt'' [''r'', ''aggregated.txt''] (Some ((=) ''ignore.txt'')) ?fs \<noteq> []"
    by (simp add: f)
  have b: "concat (map (spec_block ?fs [''r'']) [[''r'', ''a.txt''], [''r'', ''sub'', ''b.txt'']])
           = ''a.txt\<newline>hello\<newline>'' @ replicate 80 CHR ''-'' @ ''\<newline>\<newline>''
             @ ''sub/b.txt\<newline>world\<newline>'' @ replicate 80 CHR ''-'' @ ''\<newline>\<newline>''"
    by code_simp
  have "lookup (snd ?run) [''r'', ''aggregated.txt'']
        = Some (File (Text (concat (map (spec_block ?fs [''r''])
            (files [''r''] ''.txt'' [''r'', ''aggregated.txt''] (Some ((=) ''ignore.txt'')) ?fs)))))"
    using artifact_is_the_blocks_in_order[OF run ne] by (rule conjunct2)
  then have l: "lookup (snd ?run) [''r'', ''aggregated.txt'']
        = Some (File (Text (''a.txt\<newline>hello\<newline>'' @ replicate 80 CHR ''-'' @ ''\<newline>\<newline>''
             @ ''sub/b.txt\<newline>world\<newline>'' @ replicate 80 CHR ''-'' @ ''\<newline>\<newline>'')))"
    by (simp only: f b)
  show ?thesis
    by (intro conjI) (rule f, rule r, rule l)
qed

text \<open>
  C4. For a candidate that cannot be read, the block holds the bracketed marker with
  the message of the exception, followed by a newline. The outcome of the run is
  decided by \<open>mkdir\<close> and \<open>open\<close> on the output path alone: when both succeed the run
  returns the number of all candidates, the unreadable ones among them, and the
  output file holds the blocks of all of them.
\<close>

theorem unreadable_file_marked_and_counted:
  assumes "p \<in> set (files root ext output spec fs)" and "read_text fs p = Inl exc"
  shows "spec_block fs root p =
           as_posix (relative_to p root) @ ''\<newline>''
           @ ''[Error reading file: '' @ exc @ '']'' @ ''\<newline>''
           @ separator @ ''\<newline>\<newline>''
         \<and> (case mkdir fs (parent output) of
               Inl e \<Rightarrow> fst (aggregate_files root ext output spec fs) = Inl e
             | Inr fs1 \<Rightarrow>
                 (case open_w fs1 output of
                    Inl e \<Rightarrow> fst (aggregate_files root ext output spec fs) = Inl e
                  | Inr fs2 \<Rightarrow>
                      fst (aggregate_files root ext output spec fs)
                        = Inr (length (files root ext output spec fs))
                      \<and> lookup (snd (aggregate_files root ext output spec fs)) output
                        = Some (File (Text (concat (map (spec_block fs root)
                                                      (files root ext output spec fs)))))))"
proof
  show "spec_block fs root p =
           as_posix (relative_to p root) @ ''\<newline>''
           @ ''[Error reading file: '' @ exc @ '']'' @ ''\<newline>''
           @ separator @ ''\<newline>\<newline>''"
    using assms(2) by (simp add: spec_block_def spec_content_def separator_def suffix_def)
next
  from assms(1) have ne: "files root ext output spec fs \<noteq> []" by auto
  show "case mkdir fs (parent output) of
               Inl e \<Rightarrow> fst (aggregate_files root ext output spec fs) = Inl e
             | Inr fs1 \<Rightarrow>
                 (case open_w fs1 output of
                    Inl e \<Rightarrow> fst (aggregate_files root ext output spec fs) = Inl e
                  | Inr fs2 \<Rightarrow>
                      fst (aggregate_files root ext output spec fs)
                        = Inr (length (files root ext output spec fs))
                      \<and> lookup (snd (aggregate_files root ext output spec fs)) output
                        = Some (File (Text (concat (map (spec_block fs root)
                                                      (files root ext output spec fs))))))"
  proof (cases "mkdir fs (parent output)")
    case (Inl e)
    with ne show ?thesis
      unfolding aggregate_files_def resolve_def Let_def by simp
  next
    case mk: (Inr fs1)
    show ?thesis
    proof (cases "open_w fs1 output")
      case (Inl e)
      with ne mk show ?thesis
        unfolding aggregate_files_def resolve_def Let_def by simp
    next
      case op: (Inr fs2)
      from open_w_creates[OF op]
      have "lookup (close fs2 output (concat (map (spec_block fs root) (files root ext output spec fs)))) output
            = Some (File (Text (concat (map (spec_block fs root) (files root ext output spec fs)))))"
        by (rule close_stores)
      with aggregate_files_success[OF ne mk op] mk op show ?thesis by simp
    qed
  qed
qed

theorem unreadable_file_marked_and_counted_witness:
  "[''r'', ''c.txt''] \<in> set (files [''r''] ''.txt'' [''r'', ''new'', ''out.txt''] None
       (Dir [(''r'', Dir [(''a.txt'', File (Text ''hello'')),
                          (''c.txt'', File (Unreadable ''denied'')),
                          (''d.txt'', File (Text ''bye''))])]))
   \<and> read_text (Dir [(''r'', Dir [(''a.txt'', File (Text ''hello'')),
                          (''c.txt'', File (Unreadable ''denied'')),
                          (''d.txt'', File (Text ''bye''))])]) [''r'', ''c.txt''] = Inl ''denied''
   \<and> fst (aggregate_files [''r''] ''.txt'' [''r'', ''new'', ''out.txt''] None
       (Dir [(''r'', Dir [(''a.txt'', File (Text ''hello'')),
                          (''c.txt'', File (Unreadable ''denied'')),
                          (''d.txt'', File (Text ''bye''))])])) = Inr 3
   \<and> lookup (snd (aggregate_files [''r''] ''.txt'' [''r'', ''new'', ''out.txt''] None
       (Dir [(''r'', Dir [(''a.txt'', File (Text ''hello'')),
                          (''c.txt'', File (Unreadable ''denied'')),
                          (''d.txt'', File (Text ''bye''))])]))) [''r'', ''new'', ''out.txt'']
     = Some (File (Text (''a.txt\<newline>hello\<newline>'' @ replicate 80 CHR ''-'' @ ''\<newline>\<newline>''
                         @ ''c.txt\<newline>[Error reading file: denied]\<newline>'' @ replicate 80 CHR ''-'' @ ''\<newline>\<newline>''
                         @ ''d.txt\<newline>bye\<newline>'' @ replicate 80 CHR ''-'' @ ''\<newline>\<newline>'')))"
proof -
  let ?fs = "Dir [(''r'', Dir [(''a.txt'', File (Text ''hello'')),
                          (''c.txt'', File (Unreadable ''denied'')),
                          (''d.txt'', File (Text ''bye''))])]"
  have f: "files [''r''] ''.txt'' [''r'', ''new'', ''out.txt''] None ?fs
           = [[''r'', ''a.txt''], [''r'', ''c.txt''], [''r'', ''d.txt'']]"
    by code_simp
  have 1: "[''r'', ''c.txt''] \<in> set (files [''r''] ''.txt'' [''r'', ''new'', ''out.txt''] None ?fs)"
    by (simp add: f)
  have 2: "read_text ?fs [''r'', ''c.txt''] = Inl ''denied''" by code_simp
  have mk: "mkdir ?fs (parent [''r'', ''new'', ''out.txt''])
            = Inr (Dir [(''r'', Dir [(''a.txt'', File (Text ''hello'')),
                          (''c.txt'', File (Unreadable ''denied'')),
                          (''d.txt'', File (Text ''bye'')), (''new'', Dir [])])])"
    by code_simp
  have op: "open_w (Dir [(''r'', Dir [(''a.txt'', File (Text ''hello'')),
                          (''c.txt'', File (Unreadable ''denied'')),
                          (''d.txt'', File (Text ''bye'')), (''new'', Dir [])])]) [''r'', ''new'', ''out.txt'']
            = Inr (Dir [(''r'', Dir [(''a.txt'', File (Text ''hello'')),
                          (''c.txt'', File (Unreadable ''denied'')),
                          (''d.txt'', File (Text ''bye'')), (''new'', Dir [(''out.txt'', File (Text []))])])])"
    by code_simp
  have b: "concat (map (spec_block ?fs [''r'']) [[''r'', ''a.txt''], [''r'', ''c.txt''], [''r'', ''d.txt'']])
           = ''a.txt\<newline>hello\<newline>'' @ replicate 80 CHR ''-'' @ ''\<newline>\<newline>''
             @ ''c.txt\<newline>[Error reading file: denied]\<newline>'' @ replicate 80 CHR ''-'' @ ''\<newline>\<newline>''
             @ ''d.txt\<newline>bye\<newline>'' @ replicate 80 CHR ''-'' @ ''\<newline>\<newline>''"
    by code_simp
  let ?run = "aggregate_files [''r''] ''.txt'' [''r'', ''new'', ''out.txt''] None ?fs"
  have "fst ?run = Inr (length (files [''r''] ''.txt'' [''r'', ''new'', ''out.txt''] None ?fs))
        \<and> lookup (snd ?run) [''r'', ''new'', ''out.txt'']
            = Some (File (Text (concat (map (spec_block ?fs [''r''])
                 (files [''r''] ''.txt'' [''r'', ''new'', ''out.txt''] None ?fs)))))"
    using conjunct2[OF unreadable_file_marked_and_counted[OF 1 2]]
    by (simp only: mk op sum.case)
  then have "fst ?run = Inr (length [[''r'', ''a.txt''], [''r'', ''c.txt''], [''r'', ''d.txt'']])
        \<and> lookup (snd ?run) [''r'', ''new'', ''out.txt'']
            = Some (File (Text (''a.txt\<newline>hello\<newline>'' @ replicate 80 CHR ''-'' @ ''\<newline>\<newline>''
             @ ''c.txt\<newline>[Error reading file: denied]\<newline>'' @ replicate 80 CHR ''-'' @ ''\<newline>\<newline>''
             @ ''d.txt\<newline>bye\<newline>'' @ replicate 80 CHR ''-'' @ ''\<newline>\<newline>'')))"
    by (simp only: f b)
  then have 3: "fst ?run = Inr 3" and 4: "lookup (snd ?run) [''r'', ''new'', ''out.txt'']
            = Some (File (Text (''a.txt\<newline>hello\<newline>'' @ replicate 80 CHR ''-'' @ ''\<newline>\<newline>''
             @ ''c.txt\<newline>[Error reading file: denied]\<newline>'' @ replicate 80 CHR ''-'' @ ''\<newline>\<newline>''
             @ ''d.txt\<newline>bye\<newline>'' @ replicate 80 CHR ''-'' @ ''\<newline>\<newline>'')))"
    by simp_all
  show ?thesis
    by (intro conjI) (rule 1, rule 2, rule 3, rule 4)
qed

section \<open>Reading the artifact back\<close>

lemma separator_Cons: "separator = CHR ''-'' # replicate 79 CHR ''-''"
  by (simp add: separator_def flip: replicate_Suc)

lemma separator_not_Nil [simp]: "separator \<noteq> []"
  by (simp add: separator_Cons)

lemma set_separator: "set separator = {CHR ''-''}"
  by (simp add: separator_def)

text \<open>A text that ends with a newline and holds no separator is not entered by one.\<close>

lemma not_prefix_separator:
  assumes "b \<noteq> []" and "last b = CHR ''\<newline>''" and "\<not> sublist separator b"
  shows "\<not> prefix separator (b @ rest)"
proof
  assume "prefix separator (b @ rest)"
  moreover have "prefix b (b @ rest)" by simp
  ultimately have "prefix separator b \<or> prefix b separator"
    by (rule prefix_same_cases)
  then show False
  proof
    assume "prefix separator b"
    then have "sublist separator b" by (rule prefix_imp_sublist)
    with assms(3) show False by simp
  next
    assume "prefix b separator"
    then have "set b \<subseteq> set separator" by (rule set_mono_prefix)
    moreover from assms(1) have "last b \<in> set b" by simp
    ultimately have "last b = CHR ''-''" by (auto simp: set_separator)
    with assms(2) show False by simp
  qed
qed

lemma sublist_Cons_right_not: "\<not> sublist xs (c # b) \<Longrightarrow> \<not> sublist xs b"
  by (meson sublist_Cons_right)

text \<open>The split passes over a block and stops at the separator that ends it.\<close>

lemma split_acc_block:
  assumes "b = [] \<or> last b = CHR ''\<newline>''" and "\<not> sublist separator b"
  shows "split_acc separator acc (b @ separator @ rest) = (acc @ b) # split_acc separator [] rest"
  using assms
proof (induction b arbitrary: acc)
  case Nil
  have "separator @ rest = CHR ''-'' # (replicate 79 CHR ''-'' @ rest)"
    by (simp add: separator_Cons)
  moreover have "prefix separator (separator @ rest)" by simp
  ultimately have "split_acc separator acc (separator @ rest)
        = acc # split_acc separator [] (drop (length separator) (separator @ rest))"
    by (metis split_acc.simps(2) separator_not_Nil)
  then show ?case by simp
next
  case (Cons c b)
  from Cons.prems have np: "\<not> prefix separator ((c # b) @ separator @ rest)"
    by (intro not_prefix_separator) auto
  have b: "b = [] \<or> last b = CHR ''\<newline>''" using Cons.prems(1) by (cases b) auto
  have nb: "\<not> sublist separator b" using Cons.prems(2) by (rule sublist_Cons_right_not)
  have "split_acc separator acc ((c # b) @ separator @ rest)
        = split_acc separator (acc @ [c]) (b @ separator @ rest)"
    using np by simp
  also have "\<dots> = ((acc @ [c]) @ b) # split_acc separator [] rest"
    using b nb by (rule Cons.IH)
  finally show ?case by simp
qed


lemma split_acc_newlines:
  "split_acc separator acc (''\<newline>\<newline>'' @ rest) = split_acc separator (acc @ ''\<newline>\<newline>'') rest"
  by (simp add: separator_Cons)

lemma split_acc_blocks:
  assumes "\<forall>b \<in> set bs. last b = CHR ''\<newline>'' \<and> b \<noteq> [] \<and> \<not> sublist separator b"
  shows "split_acc separator acc (concat (map (\<lambda>b. b @ separator @ ''\<newline>\<newline>'') bs))
         = (case bs of
              [] \<Rightarrow> [acc]
            | b # bs' \<Rightarrow> (acc @ b) # map ((@) ''\<newline>\<newline>'') bs' @ [''\<newline>\<newline>''])"
  using assms
proof (induction bs arbitrary: acc)
  case Nil
  then show ?case by simp
next
  case (Cons b bs)
  let ?rest = "concat (map (\<lambda>b. b @ separator @ ''\<newline>\<newline>'') bs)"
  from Cons.prems have b: "b = [] \<or> last b = CHR ''\<newline>''" and nb: "\<not> sublist separator b"
    by auto
  from Cons.prems have rest: "\<forall>b \<in> set bs. last b = CHR ''\<newline>'' \<and> b \<noteq> [] \<and> \<not> sublist separator b"
    by simp
  have "split_acc separator acc (concat (map (\<lambda>b. b @ separator @ ''\<newline>\<newline>'') (b # bs)))
        = split_acc separator acc (b @ separator @ (''\<newline>\<newline>'' @ ?rest))"
    by simp
  also have "\<dots> = (acc @ b) # split_acc separator [] (''\<newline>\<newline>'' @ ?rest)"
    using b nb by (rule split_acc_block)
  also have "split_acc separator [] (''\<newline>\<newline>'' @ ?rest) = split_acc separator ''\<newline>\<newline>'' ?rest"
    using split_acc_newlines[of "[]" ?rest] by simp
  also have "\<dots> = map ((@) ''\<newline>\<newline>'') bs @ [''\<newline>\<newline>'']"
    using Cons.IH[OF rest, of "''\<newline>\<newline>''"] by (cases bs) simp_all
  finally show ?case by simp
qed

lemma read_block_body:
  assumes "h \<noteq> []" and "CHR ''\<newline>'' \<notin> set h"
  shows "read_block (h @ ''\<newline>'' @ c) = (h, c)"
proof -
  from assms obtain x xs where h: "h = x # xs" and x: "x \<noteq> CHR ''\<newline>''"
    by (cases h) auto
  have d: "dropWhile (\<lambda>c. c = CHR ''\<newline>'') (h @ ''\<newline>'' @ c) = h @ ''\<newline>'' @ c"
    using h x by simp
  have t: "takeWhile (\<lambda>c. c \<noteq> CHR ''\<newline>'') (h @ ''\<newline>'' @ c) = h"
    using assms(2) by (simp add: takeWhile_append)
  have r: "dropWhile (\<lambda>c. c \<noteq> CHR ''\<newline>'') (h @ ''\<newline>'' @ c) = ''\<newline>'' @ c"
    using assms(2) by (simp add: dropWhile_append)
  show ?thesis unfolding read_block_def Let_def d t r by simp
qed

lemma read_block_skip: "read_block (''\<newline>\<newline>'' @ b) = read_block b"
  by (simp add: read_block_def)

lemma sublist_separator_newline:
  assumes "\<not> sublist separator h" and "\<not> sublist separator c"
  shows "\<not> sublist separator (h @ ''\<newline>'' @ c)"
proof
  assume "sublist separator (h @ ''\<newline>'' @ c)"
  then obtain ps ss where eq: "h @ CHR ''\<newline>'' # c = ps @ separator @ ss"
    by (auto simp: sublist_def)
  then show False
  proof (cases "length ps \<ge> Suc (length h)")
    case True
    from eq have "drop (Suc (length h)) (h @ CHR ''\<newline>'' # c) = drop (Suc (length h)) (ps @ separator @ ss)"
      by simp
    with True have "c = drop (Suc (length h)) ps @ separator @ ss" by simp
    then have "sublist separator c" by (metis sublist_appendI)
    with assms(2) show False by simp
  next
    case False
    then have le: "length ps \<le> length h" by simp
    show False
    proof (cases "length ps + length separator \<le> length h")
      case True
      from eq have "take (length h) (h @ CHR ''\<newline>'' # c) = take (length h) (ps @ separator @ ss)"
        by simp
      with True le have "h = ps @ separator @ take (length h - length ps - length separator) ss"
        by simp
      then have "sublist separator h" by (metis sublist_appendI)
      with assms(1) show False by simp
    next
      case F2: False
      from le F2 have lt: "length h - length ps < length separator" by arith
      have "(h @ CHR ''\<newline>'' # c) ! length h = CHR ''\<newline>''" by simp
      moreover have "(ps @ separator @ ss) ! length h = (separator @ ss) ! (length h - length ps)"
        using le by (simp add: nth_append)
      moreover have "(separator @ ss) ! (length h - length ps) = separator ! (length h - length ps)"
        using lt by (simp only: nth_append if_True)
      moreover have "separator ! (length h - length ps) \<in> set separator"
        using lt by (rule nth_mem)
      ultimately have "CHR ''\<newline>'' \<in> set separator" using eq by simp
      then show False by (simp add: set_separator)
    qed
  qed
qed

lemma sublist_separator_normalized:
  assumes "\<not> sublist separator c"
  shows "\<not> sublist separator (newline_normalized c)"
proof (cases "suffix ''\<newline>'' c")
  case True
  with assms show ?thesis by (simp add: newline_normalized_def)
next
  case False
  have "\<not> sublist separator (c @ ''\<newline>'' @ [])"
    using assms by (rule sublist_separator_newline) (simp add: separator_Cons)
  with False show ?thesis by (simp add: newline_normalized_def)
qed

lemma last_newline_normalized: "newline_normalized c \<noteq> [] \<and> last (newline_normalized c) = CHR ''\<newline>''"
  by (auto simp: newline_normalized_def suffix_def)

lemma spec_block_body:
  "spec_block fs root p =
     (as_posix (relative_to p root) @ ''\<newline>'' @ newline_normalized (spec_content fs p))
     @ separator @ ''\<newline>\<newline>''"
  by (simp add: spec_block_def newline_normalized_def separator_def)


lemma read_blocks_of_blocks:
  assumes "\<forall>p \<in> set ps.
             as_posix (relative_to p root) \<noteq> []
             \<and> CHR ''\<newline>'' \<notin> set (as_posix (relative_to p root))
             \<and> \<not> sublist separator (as_posix (relative_to p root))
             \<and> \<not> sublist separator (spec_content fs p)"
  shows "read_blocks (concat (map (spec_block fs root) ps))
         = map (\<lambda>p. (as_posix (relative_to p root), newline_normalized (spec_content fs p))) ps"
proof -
  let ?h = "\<lambda>p. as_posix (relative_to p root)"
  let ?c = "\<lambda>p. newline_normalized (spec_content fs p)"
  let ?body = "\<lambda>p. ?h p @ ''\<newline>'' @ ?c p"
  have artifact: "concat (map (spec_block fs root) ps)
              = concat (map (\<lambda>b. b @ separator @ ''\<newline>\<newline>'') (map ?body ps))"
  proof -
    have "spec_block fs root = (\<lambda>p. ?body p @ separator @ ''\<newline>\<newline>'')"
      by (rule ext) (rule spec_block_body)
    then show ?thesis by (simp add: comp_def)
  qed
  have ok: "\<forall>b \<in> set (map ?body ps). last b = CHR ''\<newline>'' \<and> b \<noteq> [] \<and> \<not> sublist separator b"
  proof
    fix b assume "b \<in> set (map ?body ps)"
    then obtain p where p: "p \<in> set ps" and b: "b = ?body p" by auto
    from p assms have nh: "\<not> sublist separator (?h p)"
      and nc: "\<not> sublist separator (spec_content fs p)" by auto
    from nc have "\<not> sublist separator (?c p)" by (rule sublist_separator_normalized)
    with nh have "\<not> sublist separator (?body p)" by (rule sublist_separator_newline)
    moreover have "last (?body p) = CHR ''\<newline>''"
      using last_newline_normalized[of "spec_content fs p"] by simp
    ultimately show "last b = CHR ''\<newline>'' \<and> b \<noteq> [] \<and> \<not> sublist separator b"
      using b by simp
  qed
  have rb: "read_block (?body p) = (?h p, ?c p)" if "p \<in> set ps" for p
    using that assms by (intro read_block_body) auto
  show ?thesis
  proof (cases ps)
    case Nil
    then show ?thesis by (simp add: read_blocks_def str_split_def)
  next
    case (Cons q qs)
    have "str_split (concat (map (spec_block fs root) ps)) separator
          = ?body q # map ((@) ''\<newline>\<newline>'') (map ?body qs) @ [''\<newline>\<newline>'']"
      unfolding str_split_def artifact using split_acc_blocks[OF ok, of "[]"] Cons by simp
    then have "read_blocks (concat (map (spec_block fs root) ps))
          = map read_block (?body q # map ((@) ''\<newline>\<newline>'') (map ?body qs))"
      by (simp add: read_blocks_def butlast_append)
    also have "\<dots> = map (\<lambda>p. read_block (?body p)) ps"
      using Cons by (simp add: comp_def read_block_skip del: append.simps)
    also have "\<dots> = map (\<lambda>p. (?h p, ?c p)) ps"
      by (rule map_cong[OF refl]) (rule rb)
    finally show ?thesis .
  qed
qed

text \<open>
  C5, as the claim states it, fails. The aggregator writes the content as it is, and
  a content that holds a line of 80 dashes is cut by the split. One file \<open>a.txt\<close> whose
  content is 80 dashes gives an artifact that splits into three pieces; the blocks
  read from it are two, and none carries the content.
\<close>

theorem split_breaks_on_dashes_in_content:
  "files [''r''] ''.txt'' [''r'', ''out.txt''] None
     (Dir [(''r'', Dir [(''a.txt'', File (Text (replicate 80 CHR ''-'')))])])
   = [[''r'', ''a.txt'']]
   \<and> lookup (snd (aggregate_files [''r''] ''.txt'' [''r'', ''out.txt''] None
              (Dir [(''r'', Dir [(''a.txt'', File (Text (replicate 80 CHR ''-'')))])])))
          [''r'', ''out.txt'']
       = Some (File (Text (''a.txt\<newline>'' @ replicate 80 CHR ''-'' @ ''\<newline>''
                           @ replicate 80 CHR ''-'' @ ''\<newline>\<newline>'')))
   \<and> str_split (''a.txt\<newline>'' @ replicate 80 CHR ''-'' @ ''\<newline>''
                 @ replicate 80 CHR ''-'' @ ''\<newline>\<newline>'') separator
       = [''a.txt\<newline>'', ''\<newline>'', ''\<newline>\<newline>'']
   \<and> read_blocks (''a.txt\<newline>'' @ replicate 80 CHR ''-'' @ ''\<newline>''
                   @ replicate 80 CHR ''-'' @ ''\<newline>\<newline>'')
       = [(''a.txt'', []), ([], [])]"
  by code_simp

text \<open>
  C5, amended. When the relative paths of the candidates are not empty and hold no
  newline, and neither a relative path nor a content holds a run of 80 dashes, the
  artifact splits on the separator into one piece for each candidate, in order, and a
  last piece that holds the final blank line; each piece, read after the newlines that
  the preceding separator leaves, has the relative path as its first line and the
  content with its final newline as the remainder.
\<close>

theorem round_trip_without_separator_inside:
  assumes "aggregate_files root ext output spec fs = (Inr n, fs')"
    and "files root ext output spec fs \<noteq> []"
    and "\<forall>p \<in> set (files root ext output spec fs).
           as_posix (relative_to p root) \<noteq> []
           \<and> CHR ''\<newline>'' \<notin> set (as_posix (relative_to p root))
           \<and> \<not> sublist separator (as_posix (relative_to p root))
           \<and> \<not> sublist separator (spec_content fs p)"
  shows "\<exists>text. lookup fs' output = Some (File (Text text))
           \<and> read_blocks text =
               map (\<lambda>p. (as_posix (relative_to p root), newline_normalized (spec_content fs p)))
                   (files root ext output spec fs)"
proof -
  from run_leaves_the_blocks[OF assms(1,2)]
  have "lookup fs' output =
          Some (File (Text (concat (map (spec_block fs root) (files root ext output spec fs)))))"
    by (rule conjunct2)
  moreover have "read_blocks (concat (map (spec_block fs root) (files root ext output spec fs)))
        = map (\<lambda>p. (as_posix (relative_to p root), newline_normalized (spec_content fs p)))
              (files root ext output spec fs)"
    using assms(3) by (rule read_blocks_of_blocks)
  ultimately show ?thesis by blast
qed


theorem round_trip_without_separator_inside_witness:
  "fst (aggregate_files [''r''] ''.txt'' [''r'', ''aggregated.txt''] (Some ((=) ''ignore.txt''))
     (Dir [(''r'', Dir [(''sub'', Dir [(''b.txt'', File (Text ''world\<newline>''))]),
                        (''ignore.txt'', File (Text ''no'')),
                        (''a.txt'', File (Text ''hello''))])])) = Inr 2
   \<and> lookup (snd (aggregate_files [''r''] ''.txt'' [''r'', ''aggregated.txt''] (Some ((=) ''ignore.txt''))
     (Dir [(''r'', Dir [(''sub'', Dir [(''b.txt'', File (Text ''world\<newline>''))]),
                        (''ignore.txt'', File (Text ''no'')),
                        (''a.txt'', File (Text ''hello''))])]))) [''r'', ''aggregated.txt'']
     = Some (File (Text (''a.txt\<newline>hello\<newline>'' @ replicate 80 CHR ''-'' @ ''\<newline>\<newline>''
                         @ ''sub/b.txt\<newline>world\<newline>'' @ replicate 80 CHR ''-'' @ ''\<newline>\<newline>'')))
   \<and> read_blocks (''a.txt\<newline>hello\<newline>'' @ replicate 80 CHR ''-'' @ ''\<newline>\<newline>''
                   @ ''sub/b.txt\<newline>world\<newline>'' @ replicate 80 CHR ''-'' @ ''\<newline>\<newline>'')
     = [(''a.txt'', ''hello\<newline>''), (''sub/b.txt'', ''world\<newline>'')]"
proof -
  let ?fs = "Dir [(''r'', Dir [(''sub'', Dir [(''b.txt'', File (Text ''world\<newline>''))]),
                        (''ignore.txt'', File (Text ''no'')),
                        (''a.txt'', File (Text ''hello''))])]"
  let ?run = "aggregate_files [''r''] ''.txt'' [''r'', ''aggregated.txt''] (Some ((=) ''ignore.txt'')) ?fs"
  let ?files = "files [''r''] ''.txt'' [''r'', ''aggregated.txt''] (Some ((=) ''ignore.txt'')) ?fs"
  let ?artifact = "''a.txt\<newline>hello\<newline>'' @ replicate 80 CHR ''-'' @ ''\<newline>\<newline>''
                   @ ''sub/b.txt\<newline>world\<newline>'' @ replicate 80 CHR ''-'' @ ''\<newline>\<newline>''"
  have f: "?files = [[''r'', ''a.txt''], [''r'', ''sub'', ''b.txt'']]"
    by code_simp
  have r: "fst ?run = Inr 2" by code_simp
  then have run: "?run = (Inr 2, snd ?run)" by (metis prod.collapse)
  have ne: "?files \<noteq> []" by (simp add: f)
  have "\<forall>p \<in> set [[''r'', ''a.txt''], [''r'', ''sub'', ''b.txt'']].
           as_posix (relative_to p [''r'']) \<noteq> []
           \<and> CHR ''\<newline>'' \<notin> set (as_posix (relative_to p [''r'']))
           \<and> \<not> sublist separator (as_posix (relative_to p [''r'']))
           \<and> \<not> sublist separator (spec_content ?fs p)"
    by code_simp
  then have h: "\<forall>p \<in> set ?files.
           as_posix (relative_to p [''r'']) \<noteq> []
           \<and> CHR ''\<newline>'' \<notin> set (as_posix (relative_to p [''r'']))
           \<and> \<not> sublist separator (as_posix (relative_to p [''r'']))
           \<and> \<not> sublist separator (spec_content ?fs p)"
    by (simp only: f)
  from round_trip_without_separator_inside[OF run ne h]
  obtain t where t: "lookup (snd ?run) [''r'', ''aggregated.txt''] = Some (File (Text t))"
    and rt: "read_blocks t =
       map (\<lambda>p. (as_posix (relative_to p [''r'']), newline_normalized (spec_content ?fs p))) ?files"
    by blast
  have l: "lookup (snd ?run) [''r'', ''aggregated.txt''] = Some (File (Text ?artifact))"
    by code_simp
  with t have "t = ?artifact" by simp
  moreover have "map (\<lambda>p. (as_posix (relative_to p [''r'']), newline_normalized (spec_content ?fs p)))
                  [[''r'', ''a.txt''], [''r'', ''sub'', ''b.txt'']]
               = [(''a.txt'', ''hello\<newline>''), (''sub/b.txt'', ''world\<newline>'')]"
    by code_simp
  ultimately have b: "read_blocks ?artifact = [(''a.txt'', ''hello\<newline>''), (''sub/b.txt'', ''world\<newline>'')]"
    using rt by (simp only: f)
  show ?thesis
    by (intro conjI) (rule r, rule l, rule b)
qed

section \<open>Well-formed trees and the walk\<close>

text \<open>Creating directories, opening and closing a file keep the tree well formed.\<close>

lemma set_update_subset: "set (AList.update k v al) \<subseteq> insert (k, v) (set al)"
  by (induction al) auto

lemma wf_fs_update:
  assumes "wf_fs (Dir es)" and "wf_fs n"
  shows "wf_fs (Dir (AList.update x n es))"
proof -
  from assms(1) have d: "distinct (map fst es)" and w: "\<forall>e \<in> set es. wf_fs (snd e)" by auto
  have "\<forall>e \<in> set (AList.update x n es). wf_fs (snd e)"
    using set_update_subset[of x n es] w assms(2) by auto
  with d show ?thesis by (simp add: distinct_update)
qed

lemma wf_fs_child: "wf_fs (Dir es) \<Longrightarrow> map_of es x = Some n \<Longrightarrow> wf_fs n"
  by (auto dest: map_of_SomeD)

lemma wf_mkdir: "wf_fs t \<Longrightarrow> mkdir t p = Inr t' \<Longrightarrow> wf_fs t'"
proof (induction t p arbitrary: t' rule: mkdir.induct)
  case (4 es x xs)
  let ?n0 = "case map_of es x of None \<Rightarrow> Dir [] | Some n \<Rightarrow> n"
  from "4.prems" obtain n' where n': "mkdir ?n0 xs = Inr n'" and t': "t' = Dir (AList.update x n' es)"
    by (auto split: sum.splits)
  have "wf_fs ?n0" using "4.prems"(1) by (auto split: option.splits dest: map_of_SomeD)
  then have "wf_fs n'" using n' by (rule "4.IH")
  with "4.prems"(1) show ?case unfolding t' by (rule wf_fs_update)
qed auto

lemma wf_open_w: "wf_fs t \<Longrightarrow> open_w t p = Inr t' \<Longrightarrow> wf_fs t'"
proof (induction t p arbitrary: t' rule: open_w.induct)
  case (4 es x xs)
  show ?case
  proof (cases "map_of es x")
    case None
    with "4.prems" have t': "t' = Dir (AList.update x (File (Text [])) es)"
      by (auto split: if_splits)
    show ?thesis unfolding t' using "4.prems"(1) by (rule wf_fs_update) simp
  next
    case (Some n)
    with "4.prems" obtain n' where n': "open_w n xs = Inr n'" and t': "t' = Dir (AList.update x n' es)"
      by (auto split: sum.splits)
    have "wf_fs n" using "4.prems"(1) Some by (rule wf_fs_child)
    then have "wf_fs n'" using n' by (rule "4.IH"[OF Some])
    with "4.prems"(1) show ?thesis unfolding t' by (rule wf_fs_update)
  qed
qed auto

lemma wf_close: "wf_fs t \<Longrightarrow> wf_fs (close t p s)"
proof (induction t p s rule: close.induct)
  case (4 es x xs s)
  show ?case
  proof (cases "map_of es x")
    case None
    with "4.prems" show ?thesis by simp
  next
    case (Some n)
    have "wf_fs n" using "4.prems" Some by (rule wf_fs_child)
    then have "wf_fs (close n xs s)" by (rule "4.IH"[OF Some])
    with "4.prems" have "wf_fs (Dir (AList.update x (close n xs s) es))" by (rule wf_fs_update)
    with Some show ?thesis by simp
  qed
qed auto

text \<open>The walk of a well-formed tree yields no path twice.\<close>

lemma walk_Cons:
  "walk r (Dir ((x, n) # es)) = (r @ [x]) # walk (r @ [x]) n @ walk r (Dir es)"
  by simp

lemma walk_starts:
  "p \<in> set (walk r (Dir es)) \<Longrightarrow> \<exists>x rel. x \<in> fst ` set es \<and> p = r @ x # rel"
proof (induction es)
  case Nil
  then show ?case by simp
next
  case (Cons e es)
  obtain x n where e: "e = (x, n)" by (cases e)
  from Cons.prems consider "p = r @ [x]" | "p \<in> set (walk (r @ [x]) n)" | "p \<in> set (walk r (Dir es))"
    unfolding e walk_Cons by auto
  then show ?case
  proof cases
    case 1
    then show ?thesis using e by auto
  next
    case 2
    then obtain rel where "p = (r @ [x]) @ rel" using walk_under by blast
    then show ?thesis using e by auto
  next
    case 3
    then show ?thesis using Cons.IH by auto
  qed
qed

lemma distinct_walk: "wf_fs n \<Longrightarrow> distinct (walk r n)"
proof (induction r n rule: walk.induct)
  case (1 p c)
  then show ?case by simp
next
  case (2 r es)
  have "\<lbrakk>set es' \<subseteq> set es; distinct (map fst es')\<rbrakk> \<Longrightarrow> distinct (walk r (Dir es'))" for es'
  proof (induction es')
    case Nil
    then show ?case by simp
  next
    case (Cons e es')
    obtain x n where e: "e = (x, n)" by (cases e)
    from Cons.prems have mem: "(x, n) \<in> set es" and sub: "set es' \<subseteq> set es"
      and dx: "x \<notin> fst ` set es'" and d: "distinct (map fst es')"
      unfolding e by auto
    from "2.prems" mem have "wf_fs n" by auto
    then have dn: "distinct (walk (r @ [x]) n)" using "2.IH"[OF mem refl] by simp
    have d': "distinct (walk r (Dir es'))" using sub d by (rule Cons.IH)
    have n1: "r @ [x] \<notin> set (walk (r @ [x]) n)"
    proof
      assume "r @ [x] \<in> set (walk (r @ [x]) n)"
      then obtain rel where "rel \<noteq> []" and "r @ [x] = (r @ [x]) @ rel"
        using walk_under by blast
      then show False by simp
    qed
    have n2: "q \<notin> set (walk r (Dir es'))" if "q = r @ [x] \<or> q \<in> set (walk (r @ [x]) n)" for q
    proof
      assume "q \<in> set (walk r (Dir es'))"
      then obtain y rel where y: "y \<in> fst ` set es'" and q: "q = r @ y # rel"
        using walk_starts by blast
      from that have "\<exists>rel'. q = r @ x # rel'"
      proof
        assume "q = r @ [x]"
        then show ?thesis by simp
      next
        assume "q \<in> set (walk (r @ [x]) n)"
        then obtain rel' where "q = (r @ [x]) @ rel'" using walk_under by blast
        then have "q = r @ x # rel'" by simp
        then show ?thesis by (rule exI)
      qed
      then obtain rel' where "q = r @ x # rel'" by (rule exE)
      with q have "r @ y # rel = r @ x # rel'" by simp
      then have "x = y" by simp
      with y dx show False by simp
    qed
    have n3: "r @ [x] \<notin> set (walk r (Dir es'))" by (rule n2) simp
    have n4: "set (walk (r @ [x]) n) \<inter> set (walk r (Dir es')) = {}"
    proof (rule ccontr)
      assume "set (walk (r @ [x]) n) \<inter> set (walk r (Dir es')) \<noteq> {}"
      then obtain q where a: "q \<in> set (walk (r @ [x]) n)" and b: "q \<in> set (walk r (Dir es'))"
        by blast
      from a have "q \<notin> set (walk r (Dir es'))" by (intro n2) simp
      with b show False by simp
    qed
    have "distinct ((r @ [x]) # walk (r @ [x]) n @ walk r (Dir es'))"
      using dn d' n1 n3 n4 by simp
    then show ?case unfolding e by (simp only: walk_Cons)
  qed
  from this[of es] "2.prems" show ?case by simp
qed

text \<open>The walk yields every path that exists below its root.\<close>

lemma lookup_append:
  "lookup t (p @ q) = (case lookup t p of None \<Rightarrow> None | Some n \<Rightarrow> lookup n q)"
proof (induction t p rule: lookup.induct)
  case (1 n)
  then show ?case by simp
next
  case (2 c x xs)
  then show ?case by simp
next
  case (3 es x xs)
  then show ?case by (simp split: option.splits)
qed

lemma lookup_in_walk:
  "lookup n rel = Some m \<Longrightarrow> rel \<noteq> [] \<Longrightarrow> r @ rel \<in> set (walk r n)"
proof (induction r n arbitrary: rel rule: walk.induct)
  case (1 p c)
  then show ?case by (cases rel) auto
next
  case (2 r es)
  from "2.prems"(2) obtain x xs where rel: "rel = x # xs" by (cases rel) auto
  with "2.prems"(1) obtain n where mo: "map_of es x = Some n" and l: "lookup n xs = Some m"
    by (auto split: option.splits)
  from mo have mem: "(x, n) \<in> set es" by (rule map_of_SomeD)
  have "r @ rel \<in> set ((r @ [x]) # walk (r @ [x]) n)"
  proof (cases xs)
    case Nil
    then show ?thesis using rel by simp
  next
    case (Cons y ys)
    then have "(r @ [x]) @ xs \<in> set (walk (r @ [x]) n)"
      using "2.IH"[OF mem refl l] by simp
    then show ?thesis using rel by simp
  qed
  with mem show ?case by (force simp del: append_assoc)
qed

section \<open>A second run\<close>

lemma is_file_iff: "is_file t p \<longleftrightarrow> (\<exists>c. lookup t p = Some (File c))"
  by (auto simp: is_file_def split: option.splits node.splits)

lemma wf_lookup: "wf_fs t \<Longrightarrow> lookup t p = Some n \<Longrightarrow> wf_fs n"
proof (induction t p rule: lookup.induct)
  case (3 es x xs)
  from "3.prems"(2) obtain m where m: "map_of es x = Some m" and l: "lookup m xs = Some n"
    by (auto split: option.splits)
  from "3.prems"(1) m have "wf_fs m" by (rule wf_fs_child)
  then show ?case using l by (rule "3.IH"[OF m])
qed auto

lemma distinct_rglob: "wf_fs t \<Longrightarrow> distinct (rglob t root)"
  by (auto simp: rglob_def split: option.splits intro: distinct_walk dest: wf_lookup)

lemma distinct_files: "wf_fs t \<Longrightarrow> distinct (files root ext output spec t)"
  by (simp add: files_def collect_eq distinct_rglob)

lemma file_in_rglob:
  assumes "is_file t (root @ rel)" and "rel \<noteq> []"
  shows "root @ rel \<in> set (rglob t root)"
proof -
  from assms(1) obtain c where "lookup t (root @ rel) = Some (File c)"
    by (auto simp: is_file_iff)
  then obtain n where n: "lookup t root = Some n" and l: "lookup n rel = Some (File c)"
    by (auto simp: lookup_append split: option.splits)
  from l assms(2) have "root @ rel \<in> set (walk root n)" by (rule lookup_in_walk)
  with n show ?thesis by (simp add: rglob_def)
qed

text \<open>The candidates, by what lies at each path.\<close>

lemma set_files_by_lookup:
  "set (files root ext output spec t) =
     {p. (\<exists>rel. rel \<noteq> [] \<and> p = root @ rel) \<and> is_file t p
         \<and> lower (path_suffix p) = lower ext
         \<and> \<not> (case spec of None \<Rightarrow> False | Some m \<Rightarrow> m (as_posix (relative_to p root)))
         \<and> p \<noteq> output}"
  (is "?L = ?R")
proof (rule set_eqI)
  fix p
  show "p \<in> ?L \<longleftrightarrow> p \<in> ?R"
  proof
    assume p: "p \<in> ?L"
    then have "\<exists>rel. rel \<noteq> [] \<and> p = root @ rel" by (rule files_under_root)
    moreover from p have "is_file t p \<and> lower (path_suffix p) = lower ext
         \<and> \<not> (case spec of None \<Rightarrow> False | Some m \<Rightarrow> m (as_posix (relative_to p root)))
         \<and> p \<noteq> output"
      unfolding set_files resolve_def by simp
    ultimately show "p \<in> ?R" by simp
  next
    assume p: "p \<in> ?R"
    then obtain rel where rel: "rel \<noteq> []" "p = root @ rel" by auto
    from p have f: "is_file t p" by simp
    with rel have "p \<in> set (rglob t root)" using file_in_rglob by simp
    with p show "p \<in> ?L" unfolding set_files resolve_def by simp
  qed
qed

lemma files_cong:
  assumes "wf_fs t" and "wf_fs t'" and "\<And>p. p \<noteq> output \<Longrightarrow> is_file t' p = is_file t p"
  shows "files root ext output spec t' = files root ext output spec t"
proof (rule sorted_distinct_set_unique)
  show "sorted (files root ext output spec t')" by (rule sorted_files)
  show "sorted (files root ext output spec t)" by (rule sorted_files)
  show "distinct (files root ext output spec t')" using assms(2) by (rule distinct_files)
  show "distinct (files root ext output spec t)" using assms(1) by (rule distinct_files)
  show "set (files root ext output spec t') = set (files root ext output spec t)"
    unfolding set_files_by_lookup using assms(3) by blast
qed

lemma mkdir_is_file: "mkdir t p = Inr t' \<Longrightarrow> is_file t' q = is_file t q"
  by (simp add: is_file_iff mkdir_keeps_files)

lemma open_w_is_file: "open_w t p = Inr t' \<Longrightarrow> q \<noteq> p \<Longrightarrow> is_file t' q = is_file t q"
  by (simp add: is_file_iff open_w_keeps_files)

lemma close_is_file: "q \<noteq> p \<Longrightarrow> is_file (close t p s) q = is_file t q"
  by (simp add: is_file_iff close_keeps_files)

lemma mkdir_makes_dir: "mkdir t p = Inr t' \<Longrightarrow> \<exists>es. lookup t' p = Some (Dir es)"
proof (induction t p arbitrary: t' rule: mkdir.induct)
  case (4 es x xs)
  let ?n0 = "case map_of es x of None \<Rightarrow> Dir [] | Some n \<Rightarrow> n"
  from "4.prems" obtain n' where n': "mkdir ?n0 xs = Inr n'" and t': "t' = Dir (AList.update x n' es)"
    by (auto split: sum.splits)
  from "4.IH"[OF n'] show ?case by (simp add: t' update_conv')
qed auto

lemma mkdir_existing: "lookup t p = Some (Dir ds) \<Longrightarrow> mkdir t p = Inr t"
proof (induction t p rule: mkdir.induct)
  case (4 es x xs)
  from "4.prems" obtain n where n: "map_of es x = Some n" and l: "lookup n xs = Some (Dir ds)"
    by (auto split: option.splits)
  from l have "mkdir n xs = Inr n" using "4.IH" n by simp
  with n show ?case by (simp add: update_triv)
qed auto

lemma open_w_existing: "lookup t p = Some (File c) \<Longrightarrow> open_w t p = Inr (close t p [])"
proof (induction t p rule: open_w.induct)
  case (4 es x xs)
  from "4.prems" obtain n where n: "map_of es x = Some n" and l: "lookup n xs = Some (File c)"
    by (auto split: option.splits)
  from "4.IH"[OF n l] n show ?case by simp
qed auto

lemma close_close: "close (close t p a) p b = close t p b"
proof (induction t p a rule: close.induct)
  case (4 es x xs s)
  then show ?case by (auto simp: update_conv' split: option.splits)
qed auto

lemma parent_is_dir:
  assumes "lookup t p = Some (File c)" and "p \<noteq> []"
  shows "\<exists>es. lookup t (parent p) = Some (Dir es)"
proof -
  from assms(2) have p: "p = butlast p @ [last p]" by simp
  from assms(1) have "lookup t (butlast p @ [last p]) = Some (File c)" using p by simp
  then obtain n where n: "lookup t (butlast p) = Some n" and l: "lookup n [last p] = Some (File c)"
    by (auto simp: lookup_append split: option.splits)
  from l obtain es where "n = Dir es" by (cases n) auto
  with n show ?thesis by (auto simp: parent_def)
qed


lemma open_w_path_not_empty:
  assumes "mkdir t (parent p) = Inr t1" and "open_w t1 p = Inr t2"
  shows "p \<noteq> []"
proof
  assume e: "p = []"
  with assms(1) have "mkdir t [] = Inr t1" by (simp add: parent_def)
  then obtain es where "t1 = Dir es" by (cases t) auto
  with assms(2) e show False by simp
qed

lemma second_run:
  assumes wf: "wf_fs fs"
  shows "files root ext output spec (snd (aggregate_files root ext output spec fs))
         = files root ext output spec fs
         \<and> aggregate_files root ext output spec (snd (aggregate_files root ext output spec fs))
           = aggregate_files root ext output spec fs"
proof (cases "files root ext output spec fs = []")
  case True
  then have "aggregate_files root ext output spec fs = (Inr 0, fs)"
    by (simp add: aggregate_files_def)
  then show ?thesis by simp
next
  case ne: False
  show ?thesis
  proof (cases "mkdir fs (parent output)")
    case (Inl e)
    with ne have "aggregate_files root ext output spec fs = (Inl e, fs)"
      by (simp add: aggregate_files_def resolve_def Let_def)
    then show ?thesis by simp
  next
    case mk: (Inr fs1)
    from wf mk have wf1: "wf_fs fs1" by (rule wf_mkdir)
    have F1: "files root ext output spec fs1 = files root ext output spec fs"
      by (rule files_cong[OF wf wf1]) (simp add: mkdir_is_file[OF mk])
    from mkdir_makes_dir[OF mk] obtain es where "lookup fs1 (parent output) = Some (Dir es)" ..
    then have mk1: "mkdir fs1 (parent output) = Inr fs1" by (rule mkdir_existing)
    show ?thesis
    proof (cases "open_w fs1 output")
      case (Inl e)
      with ne mk have first: "aggregate_files root ext output spec fs = (Inl e, fs1)"
        by (simp add: aggregate_files_def resolve_def Let_def)
      from ne F1 mk1 Inl have "aggregate_files root ext output spec fs1 = (Inl e, fs1)"
        by (simp add: aggregate_files_def resolve_def Let_def)
      with first F1 show ?thesis by simp
    next
      case op: (Inr fs2)
      let ?F = "files root ext output spec fs"
      let ?T = "concat (map (spec_block fs root) ?F)"
      let ?fs' = "close fs2 output ?T"
      have first: "aggregate_files root ext output spec fs = (Inr (length ?F), ?fs')"
        by (rule aggregate_files_success[OF ne mk op])
      from wf1 op have "wf_fs fs2" by (rule wf_open_w)
      then have wf': "wf_fs ?fs'" by (rule wf_close)
      have isf: "is_file ?fs' p = is_file fs p" if "p \<noteq> output" for p
        using that by (simp add: close_is_file open_w_is_file[OF op] mkdir_is_file[OF mk])
      have F': "files root ext output spec ?fs' = ?F"
        by (rule files_cong[OF wf wf' isf])
      have out: "lookup ?fs' output = Some (File (Text ?T))"
        using open_w_creates[OF op] by (rule close_stores)
      have one: "output \<noteq> []" using mk op by (rule open_w_path_not_empty)
      from parent_is_dir[OF out one] obtain ds where "lookup ?fs' (parent output) = Some (Dir ds)" ..
      then have mk': "mkdir ?fs' (parent output) = Inr ?fs'" by (rule mkdir_existing)
      have op': "open_w ?fs' output = Inr (close ?fs' output [])"
        using out by (rule open_w_existing)
      have ne': "files root ext output spec ?fs' \<noteq> []" using F' ne by simp
      have second: "aggregate_files root ext output spec ?fs' =
          (Inr (length (files root ext output spec ?fs')),
           close (close ?fs' output []) output
             (concat (map (spec_block ?fs' root) (files root ext output spec ?fs'))))"
        by (rule aggregate_files_success[OF ne' mk' op'])
      have blocks: "map (spec_block ?fs' root) ?F = map (spec_block fs root) ?F"
      proof (rule map_cong[OF refl])
        fix p assume p: "p \<in> set ?F"
        then obtain c where c: "lookup fs p = Some (File c)" using candidate_is_file by blast
        from p have po: "p \<noteq> output" by (rule candidate_not_output)
        from c po have "lookup ?fs' p = Some (File c)"
          by (simp add: close_keeps_files open_w_keeps_files[OF op] mkdir_keeps_files[OF mk])
        with c have "read_text ?fs' p = read_text fs p" by (simp add: read_text_def)
        then show "spec_block ?fs' root p = spec_block fs root p"
          by (simp add: spec_block_def spec_content_def)
      qed
      have "aggregate_files root ext output spec ?fs' = (Inr (length ?F), ?fs')"
        unfolding second F' blocks by (simp add: close_close)
      with first F' show ?thesis by simp
    qed
  qed
qed


text \<open>
  C6. On a well-formed file system, a second run of the aggregator with the same root,
  extension, output path and matcher, on the file system that the first run left, has
  the candidates of the first run, the artifact that the first run wrote not among
  them, and gives the result of the first run: the same count, or the same exception,
  and the same file system, so the same text at the output path. When the list of
  candidates is not empty and the first run returns a count, both runs return the
  number of candidates and both leave at the output path the blocks of the candidates
  with the contents that the files had before the first run.
\<close>

theorem second_run_same_artifact_and_count:
  assumes "wf_fs fs"
  shows "aggregate_files root ext output spec (snd (aggregate_files root ext output spec fs))
           = aggregate_files root ext output spec fs
         \<and> files root ext output spec (snd (aggregate_files root ext output spec fs))
           = files root ext output spec fs
         \<and> output \<notin> set (files root ext output spec (snd (aggregate_files root ext output spec fs)))
         \<and> (files root ext output spec fs \<noteq> [] \<longrightarrow>
            fst (aggregate_files root ext output spec fs) = Inr n \<longrightarrow>
              n = length (files root ext output spec fs)
              \<and> fst (aggregate_files root ext output spec
                       (snd (aggregate_files root ext output spec fs))) = Inr n
              \<and> lookup (snd (aggregate_files root ext output spec fs)) output
                = Some (File (Text (concat (map (spec_block fs root)
                                               (files root ext output spec fs)))))
              \<and> lookup (snd (aggregate_files root ext output spec
                               (snd (aggregate_files root ext output spec fs)))) output
                = Some (File (Text (concat (map (spec_block fs root)
                                               (files root ext output spec fs))))))"
proof (intro conjI impI)
  show same: "aggregate_files root ext output spec (snd (aggregate_files root ext output spec fs))
      = aggregate_files root ext output spec fs"
    using second_run[OF assms] by (rule conjunct2)
  show "files root ext output spec (snd (aggregate_files root ext output spec fs))
      = files root ext output spec fs"
    using second_run[OF assms] by (rule conjunct1)
  show "output \<notin> set (files root ext output spec (snd (aggregate_files root ext output spec fs)))"
    using candidate_not_output by blast
  assume ne: "files root ext output spec fs \<noteq> []"
    and n: "fst (aggregate_files root ext output spec fs) = Inr n"
  from n have run: "aggregate_files root ext output spec fs
      = (Inr n, snd (aggregate_files root ext output spec fs))"
    by (metis prod.collapse)
  note blocks = run_leaves_the_blocks[OF run ne]
  from blocks show "n = length (files root ext output spec fs)" by (rule conjunct1)
  from n show "fst (aggregate_files root ext output spec
      (snd (aggregate_files root ext output spec fs))) = Inr n"
    by (simp only: same)
  from blocks show "lookup (snd (aggregate_files root ext output spec fs)) output
      = Some (File (Text (concat (map (spec_block fs root) (files root ext output spec fs)))))"
    by (rule conjunct2)
  then show "lookup (snd (aggregate_files root ext output spec
        (snd (aggregate_files root ext output spec fs)))) output
      = Some (File (Text (concat (map (spec_block fs root) (files root ext output spec fs)))))"
    by (simp only: same)
qed

theorem second_run_same_artifact_and_count_witness:
  "wf_fs (Dir [(''r'', Dir [(''a.txt'', File (Text ''hello'')),
                            (''sub'', Dir [(''b.txt'', File (Text ''world\<newline>''))]),
                            (''aggregated.txt'', File (Text ''old''))])])
   \<and> files [''r''] ''.txt'' [''r'', ''aggregated.txt''] None
       (Dir [(''r'', Dir [(''a.txt'', File (Text ''hello'')),
                          (''sub'', Dir [(''b.txt'', File (Text ''world\<newline>''))]),
                          (''aggregated.txt'', File (Text ''old''))])])
     = [[''r'', ''a.txt''], [''r'', ''sub'', ''b.txt'']]
   \<and> fst (aggregate_files [''r''] ''.txt'' [''r'', ''aggregated.txt''] None
       (Dir [(''r'', Dir [(''a.txt'', File (Text ''hello'')),
                          (''sub'', Dir [(''b.txt'', File (Text ''world\<newline>''))]),
                          (''aggregated.txt'', File (Text ''old''))])])) = Inr 2
   \<and> snd (aggregate_files [''r''] ''.txt'' [''r'', ''aggregated.txt''] None
       (Dir [(''r'', Dir [(''a.txt'', File (Text ''hello'')),
                          (''sub'', Dir [(''b.txt'', File (Text ''world\<newline>''))]),
                          (''aggregated.txt'', File (Text ''old''))])]))
     \<noteq> Dir [(''r'', Dir [(''a.txt'', File (Text ''hello'')),
                          (''sub'', Dir [(''b.txt'', File (Text ''world\<newline>''))]),
                          (''aggregated.txt'', File (Text ''old''))])]
   \<and> aggregate_files [''r''] ''.txt'' [''r'', ''aggregated.txt''] None
       (snd (aggregate_files [''r''] ''.txt'' [''r'', ''aggregated.txt''] None
         (Dir [(''r'', Dir [(''a.txt'', File (Text ''hello'')),
                            (''sub'', Dir [(''b.txt'', File (Text ''world\<newline>''))]),
                            (''aggregated.txt'', File (Text ''old''))])])))
     = aggregate_files [''r''] ''.txt'' [''r'', ''aggregated.txt''] None
         (Dir [(''r'', Dir [(''a.txt'', File (Text ''hello'')),
                            (''sub'', Dir [(''b.txt'', File (Text ''world\<newline>''))]),
                            (''aggregated.txt'', File (Text ''old''))])])
   \<and> fst (aggregate_files [''r''] ''.txt'' [''r'', ''aggregated.txt''] None
       (snd (aggregate_files [''r''] ''.txt'' [''r'', ''aggregated.txt''] None
         (Dir [(''r'', Dir [(''a.txt'', File (Text ''hello'')),
                            (''sub'', Dir [(''b.txt'', File (Text ''world\<newline>''))]),
                            (''aggregated.txt'', File (Text ''old''))])])))) = Inr 2
   \<and> lookup (snd (aggregate_files [''r''] ''.txt'' [''r'', ''aggregated.txt''] None
       (snd (aggregate_files [''r''] ''.txt'' [''r'', ''aggregated.txt''] None
         (Dir [(''r'', Dir [(''a.txt'', File (Text ''hello'')),
                            (''sub'', Dir [(''b.txt'', File (Text ''world\<newline>''))]),
                            (''aggregated.txt'', File (Text ''old''))])])))))
       [''r'', ''aggregated.txt'']
     = Some (File (Text (''a.txt\<newline>hello\<newline>'' @ replicate 80 CHR ''-'' @ ''\<newline>\<newline>''
                         @ ''sub/b.txt\<newline>world\<newline>'' @ replicate 80 CHR ''-'' @ ''\<newline>\<newline>'')))"
proof -
  let ?fs = "Dir [(''r'', Dir [(''a.txt'', File (Text ''hello'')),
                            (''sub'', Dir [(''b.txt'', File (Text ''world\<newline>''))]),
                            (''aggregated.txt'', File (Text ''old''))])]"
  let ?out = "[''r'', ''aggregated.txt'']"
  have wf: "wf_fs ?fs" by simp
  have f: "files [''r''] ''.txt'' ?out None ?fs = [[''r'', ''a.txt''], [''r'', ''sub'', ''b.txt'']]"
    by code_simp
  have r: "fst (aggregate_files [''r''] ''.txt'' ?out None ?fs) = Inr 2" by code_simp
  have d: "snd (aggregate_files [''r''] ''.txt'' ?out None ?fs) \<noteq> ?fs" by code_simp
  have ne: "files [''r''] ''.txt'' ?out None ?fs \<noteq> []" by (simp add: f)
  have b: "concat (map (spec_block ?fs [''r'']) [[''r'', ''a.txt''], [''r'', ''sub'', ''b.txt'']])
           = ''a.txt\<newline>hello\<newline>'' @ replicate 80 CHR ''-'' @ ''\<newline>\<newline>''
             @ ''sub/b.txt\<newline>world\<newline>'' @ replicate 80 CHR ''-'' @ ''\<newline>\<newline>''"
    by code_simp
  note T = second_run_same_artifact_and_count[OF wf, of "[''r'']" "''.txt''" ?out None 2]
  from T have same: "aggregate_files [''r''] ''.txt'' ?out None
        (snd (aggregate_files [''r''] ''.txt'' ?out None ?fs))
      = aggregate_files [''r''] ''.txt'' ?out None ?fs"
    by (rule conjunct1)
  from T ne r have c: "fst (aggregate_files [''r''] ''.txt'' ?out None
        (snd (aggregate_files [''r''] ''.txt'' ?out None ?fs))) = Inr 2"
    by blast
  from T ne r have "lookup (snd (aggregate_files [''r''] ''.txt'' ?out None
        (snd (aggregate_files [''r''] ''.txt'' ?out None ?fs)))) ?out
      = Some (File (Text (concat (map (spec_block ?fs [''r''])
            (files [''r''] ''.txt'' ?out None ?fs)))))"
    by blast
  then have l: "lookup (snd (aggregate_files [''r''] ''.txt'' ?out None
        (snd (aggregate_files [''r''] ''.txt'' ?out None ?fs)))) ?out
      = Some (File (Text (''a.txt\<newline>hello\<newline>'' @ replicate 80 CHR ''-'' @ ''\<newline>\<newline>''
             @ ''sub/b.txt\<newline>world\<newline>'' @ replicate 80 CHR ''-'' @ ''\<newline>\<newline>'')))"
    by (simp only: f b)
  show ?thesis
    by (intro conjI) (rule wf, rule f, rule r, rule d, rule same, rule c, rule l)
qed


end
